theory Spec2Isabelle
  imports Main "HOL-Library.Word"
begin

section \<open>Values of the Go runtime\<close>

text \<open>
  An \<open>error\<close> is a Go error value; \<open>None\<close> of \<open>error option\<close> is \<open>nil\<close>.
  A \<open>Time\<close> is an instant in nanoseconds, a \<open>Duration\<close> a signed 64-bit count of
  nanoseconds. A context is either \<open>context.Background()\<close>, which is never done, or a
  cancellable context named by a number.
\<close>

type_synonym error = string
type_synonym Time = int
type_synonym Duration = int

datatype ctx = Background | Ctx nat

text \<open>
  A call, or a step of a goroutine, returns, or cannot go on in the state it is made in, or
  panics.
\<close>

datatype 'a result = Returns 'a | Blocks | Panics string

definition and_then :: "'a result \<Rightarrow> ('a \<Rightarrow> 'b result) \<Rightarrow> 'b result" where
  "and_then r f = (case r of Returns x \<Rightarrow> f x | Blocks \<Rightarrow> Blocks | Panics m \<Rightarrow> Panics m)"

definition minDuration :: Duration where
  "minDuration = - (2 ^ 63)"

definition maxDuration :: Duration where
  "maxDuration = 2 ^ 63 - 1"

definition is_Duration :: "int \<Rightarrow> bool" where
  "is_Duration d = (minDuration \<le> d \<and> d \<le> maxDuration)"

text \<open>
  \<open>t.Sub(u)\<close> of package time: the difference, saturated at the largest and the smallest
  \<open>Duration\<close>. \<open>time.Since(u)\<close> is \<open>time.Now().Sub(u)\<close>; the clock reading is an argument.
\<close>

definition time_Sub :: "Time \<Rightarrow> Time \<Rightarrow> Duration" where
  "time_Sub t u =
     (let d = t - u
      in if maxDuration < d then maxDuration
         else if d < minDuration then minDuration
         else d)"

definition time_Since :: "Time \<Rightarrow> Time \<Rightarrow> Duration" where
  "time_Since now u = time_Sub now u"

text \<open>
  A \<open>select\<close> statement without \<open>default\<close>: \<open>ready\<close> lists, in source order, whether the
  communication of each case can proceed. The runtime picks one of the ready cases by a
  pseudo-random \<open>choice\<close>; with no case ready the goroutine parks.
\<close>

definition go_select :: "bool list \<Rightarrow> nat \<Rightarrow> nat option" where
  "go_select ready choice =
     (let rs = filter (\<lambda>i. ready ! i) [0..<length ready]
      in if rs = [] then None else Some (rs ! (choice mod length rs)))"

text \<open>
  The synchronisation events and field accesses a method performs, in program order.
\<close>

datatype access = Lock | Unlock | Read string | Write string | Call string

text \<open>
  \<open>guarded f held es\<close>: every read and write of field \<open>f\<close> in \<open>es\<close> happens while the
  mutex is held, \<open>held\<close> telling whether it is held at the start.
\<close>

fun guarded :: "string \<Rightarrow> bool \<Rightarrow> access list \<Rightarrow> bool" where
  "guarded f held [] = True"
| "guarded f held (Lock # es) = guarded f True es"
| "guarded f held (Unlock # es) = guarded f False es"
| "guarded f held (Read g # es) = ((if g = f then held else True) \<and> guarded f held es)"
| "guarded f held (Write g # es) = ((if g = f then held else True) \<and> guarded f held es)"
| "guarded f held (Call g # es) = guarded f held es"

text \<open>
  \<open>sync.Mutex\<close>: \<open>True\<close> while some goroutine holds it. \<open>Lock\<close> waits for a held mutex;
  \<open>Unlock\<close> of a free one is a fatal error.
\<close>

definition mutex_Lock :: "bool \<Rightarrow> bool result" where
  "mutex_Lock m = (if m then Blocks else Returns True)"

definition mutex_Unlock :: "bool \<Rightarrow> bool result" where
  "mutex_Unlock m = (if m then Returns False else Panics ''sync: unlock of unlocked mutex'')"

section \<open>Tasks (scheduler/scheduler.go)\<close>

record RetryPolicy =
  MaxRetries :: int
  BackoffBase :: Duration

record BaseTask =
  Name :: string
  Priority :: int
  RetryPolicy :: RetryPolicy

definition millisecond :: Duration where
  "millisecond = 1000000"

record PeriodicTask = BaseTask +
  interval :: Duration
  lastRun :: Time
  runFunc :: "ctx \<Rightarrow> error option"
  mu :: bool

text \<open>
  A value of the interface \<open>Task\<close>: a periodic task, or any other implementation, of
  which the scheduler sees the embedded \<open>BaseTask\<close> only.
\<close>

datatype Task = PeriodicT PeriodicTask | OtherT BaseTask

fun GetName :: "Task \<Rightarrow> string" where
  "GetName (PeriodicT p) = Name p"
| "GetName (OtherT b) = Name b"

fun GetPriority :: "Task \<Rightarrow> int" where
  "GetPriority (PeriodicT p) = Priority p"
| "GetPriority (OtherT b) = Priority b"

fun GetRetryPolicy :: "Task \<Rightarrow> RetryPolicy" where
  "GetRetryPolicy (PeriodicT p) = RetryPolicy p"
| "GetRetryPolicy (OtherT b) = RetryPolicy b"

subsection \<open>PeriodicTask.Execute and PeriodicTask.ShouldRun\<close>

text \<open>
  The statements of the two methods act on the task and extend the list of accesses made
  so far.
\<close>

definition p_Lock :: "PeriodicTask \<times> access list \<Rightarrow> (PeriodicTask \<times> access list) result" where
  "p_Lock x = (case x of (p, tr) \<Rightarrow>
     and_then (mutex_Lock (mu p)) (\<lambda>m. Returns (p\<lparr>mu := m\<rparr>, tr @ [Lock])))"

definition p_Unlock :: "PeriodicTask \<times> access list \<Rightarrow> (PeriodicTask \<times> access list) result" where
  "p_Unlock x = (case x of (p, tr) \<Rightarrow>
     and_then (mutex_Unlock (mu p)) (\<lambda>m. Returns (p\<lparr>mu := m\<rparr>, tr @ [Unlock])))"

definition p_set_lastRun ::
  "Time \<Rightarrow> PeriodicTask \<times> access list \<Rightarrow> (PeriodicTask \<times> access list) result" where
  "p_set_lastRun now x = (case x of (p, tr) \<Rightarrow>
     Returns (p\<lparr>lastRun := now\<rparr>, tr @ [Write ''lastRun'']))"

definition p_get_lastRun ::
  "PeriodicTask \<times> access list \<Rightarrow> (Time \<times> PeriodicTask \<times> access list) result" where
  "p_get_lastRun x = (case x of (p, tr) \<Rightarrow>
     Returns (lastRun p, p, tr @ [Read ''lastRun'']))"

text \<open>
  \<open>Execute\<close>: \<open>now\<close> is what \<open>time.Now()\<close> reads. The result is the task afterwards, the
  accesses made and what \<open>runFunc\<close> returned.
\<close>

definition Execute ::
  "PeriodicTask \<Rightarrow> Time \<Rightarrow> ctx \<Rightarrow> (PeriodicTask \<times> access list \<times> error option) result" where
  "Execute p now c =
     and_then (p_Lock (p, [])) (\<lambda>x1.
     and_then (p_set_lastRun now x1) (\<lambda>x2.
     and_then (p_Unlock x2) (\<lambda>x3.
       case x3 of (p', tr) \<Rightarrow> Returns (p', tr @ [Call ''runFunc''], runFunc p' c))))"

text \<open>
  \<open>ShouldRun\<close>: the deferred \<open>Unlock\<close> runs after the comparison has been evaluated.
\<close>

definition ShouldRun ::
  "PeriodicTask \<Rightarrow> Time \<Rightarrow> (PeriodicTask \<times> access list \<times> bool) result" where
  "ShouldRun p now =
     and_then (p_Lock (p, [])) (\<lambda>x1.
     and_then (p_get_lastRun x1) (\<lambda>x2.
       case x2 of (t, p1, tr1) \<Rightarrow>
         let b = (interval p1 \<le> time_Since now t)
         in and_then (p_Unlock (p1, tr1)) (\<lambda>x3.
              case x3 of (p', tr) \<Rightarrow> Returns (p', tr, b))))"

subsection \<open>Concurrent calls of Execute and ShouldRun\<close>

text \<open>
  The methods have a pointer receiver, so the calls that several goroutines make act on
  one \<open>lastRun\<close> and one mutex. Here the bodies of the two methods are lists of their
  statements: a goroutine runs one statement at a time, and statements of other
  goroutines run in between. The time in \<open>St_set_lastRun\<close> is what \<open>time.Now()\<close> reads
  when the assignment runs.
\<close>

datatype pstmt = St_Lock | St_set_lastRun Time | St_get_lastRun | St_Unlock | St_runFunc

fun pstmt_run ::
  "pstmt \<Rightarrow> PeriodicTask \<times> access list \<Rightarrow> (PeriodicTask \<times> access list) result" where
  "pstmt_run St_Lock x = p_Lock x"
| "pstmt_run (St_set_lastRun now) x = p_set_lastRun now x"
| "pstmt_run St_get_lastRun x =
     and_then (p_get_lastRun x) (\<lambda>r. case r of (t, p, tr) \<Rightarrow> Returns (p, tr))"
| "pstmt_run St_Unlock x = p_Unlock x"
| "pstmt_run St_runFunc x = (case x of (p, tr) \<Rightarrow> Returns (p, tr @ [Call ''runFunc'']))"

fun pstmts_run ::
  "pstmt list \<Rightarrow> PeriodicTask \<times> access list \<Rightarrow> (PeriodicTask \<times> access list) result" where
  "pstmts_run [] x = Returns x"
| "pstmts_run (st # sts) x = and_then (pstmt_run st x) (pstmts_run sts)"

definition Execute_stmts :: "Time \<Rightarrow> pstmt list" where
  "Execute_stmts now = [St_Lock, St_set_lastRun now, St_Unlock, St_runFunc]"

definition ShouldRun_stmts :: "pstmt list" where
  "ShouldRun_stmts = [St_Lock, St_get_lastRun, St_Unlock]"

datatype pcall = Of_Execute Time | Of_ShouldRun

fun stmts_of :: "pcall \<Rightarrow> pstmt list" where
  "stmts_of (Of_Execute now) = Execute_stmts now"
| "stmts_of Of_ShouldRun = ShouldRun_stmts"

text \<open>
  The calls in progress: what each goroutine has still to run, the task, and the accesses
  made so far, each with the number of the goroutine that made it. \<open>pcall_step k\<close> is the
  next statement of goroutine \<open>k\<close>; it is \<open>Blocks\<close> when that is a \<open>Lock\<close> that finds the
  mutex held, and when the goroutine has returned. \<open>interleave\<close> runs the statements in
  the order of a schedule.
\<close>

type_synonym pcalls = "pstmt list list \<times> PeriodicTask \<times> (nat \<times> access) list"

definition pcall_step :: "nat \<Rightarrow> pcalls \<Rightarrow> pcalls result" where
  "pcall_step k x = (case x of (ths, p, log) \<Rightarrow>
     if length ths \<le> k then Blocks
     else case ths ! k of
         [] \<Rightarrow> Blocks
       | st # rest \<Rightarrow>
           and_then (pstmt_run st (p, [])) (\<lambda>r. case r of (p', tr) \<Rightarrow>
             Returns (ths[k := rest], p', log @ map (Pair k) tr)))"

fun interleave :: "nat list \<Rightarrow> pcalls \<Rightarrow> pcalls result" where
  "interleave [] x = Returns x"
| "interleave (k # ks) x = and_then (pcall_step k x) (interleave ks)"

text \<open>
  Mutual exclusion, read off the accesses: \<open>held_by h log\<close> follows who holds the mutex,
  starting from \<open>h\<close>, and is \<open>None\<close> when a goroutine locks a mutex that is held, unlocks
  one it does not hold, or reads or writes a field without holding it.
\<close>

fun held_by :: "nat option \<Rightarrow> (nat \<times> access) list \<Rightarrow> nat option option" where
  "held_by h [] = Some h"
| "held_by h ((k, Lock) # es) = (if h = None then held_by (Some k) es else None)"
| "held_by h ((k, Unlock) # es) = (if h = Some k then held_by None es else None)"
| "held_by h ((k, Read f) # es) = (if h = Some k then held_by h es else None)"
| "held_by h ((k, Write f) # es) = (if h = Some k then held_by h es else None)"
| "held_by h ((k, Call f) # es) = held_by h es"

definition exclusive :: "(nat \<times> access) list \<Rightarrow> bool" where
  "exclusive log = (held_by None log \<noteq> None)"

section \<open>The scheduler and its goroutines (scheduler/scheduler.go)\<close>

text \<open>
  A goroutine is at one of the statements of the function it runs.
  \<^item> \<open>worker\<close>: at the \<open>select\<close>; parked in it; inside \<open>task.Execute\<close> of the task it has
    received; woken by the quit case and about to return; gone, its deferred \<open>wg.Done()\<close>
    made.
  \<^item> the goroutine of \<open>ScheduleWithDelay\<close>, its timer created: at the \<open>select\<close>, with the
    flag telling whether the timer has fired; parked in it; at \<open>s.SubmitTask(task)\<close>; at
    \<open>timer.Stop()\<close>; gone, with the flag telling whether it stopped the timer.
  \<^item> the goroutine of \<open>ScheduleRecurring\<close>: at \<open>time.NewTicker(interval)\<close>; at the
    \<open>select\<close>, with the flag telling whether a tick waits in the ticker's channel (which
    holds one); parked in it; at \<open>s.SubmitTask(task)\<close>; at \<open>return\<close>; gone, the ticker
    stopped by the deferred \<open>ticker.Stop()\<close>.
\<close>

datatype goroutine =
    W_select
  | W_parked
  | W_execute Task
  | W_return
  | W_exited
  | D_select Task ctx bool
  | D_parked Task ctx
  | D_submit Task
  | D_stop
  | D_exited bool
  | R_start Task ctx Duration
  | R_select Task ctx bool
  | R_parked Task ctx
  | R_submit Task ctx bool
  | R_return
  | R_exited

text \<open>
  The struct \<open>Scheduler\<close>. \<open>taskQueue\<close> holds what the channel buffers, oldest first, its
  capacity being \<open>queueSize\<close>; \<open>quit\<close> tells whether the quit channel is closed; \<open>wg\<close> is
  the counter of the wait group; \<open>s_mu\<close> is the mutex \<open>mu\<close> of the struct.
\<close>

record Scheduler =
  workers :: int
  queueSize :: int
  taskQueue :: "Task list"
  periodicTask :: "string \<Rightarrow> PeriodicTask option"
  s_mu :: bool
  wg :: int
  quit :: bool

text \<open>
  The running program around a scheduler: the goroutines it has spawned, in the order of
  their creation, the cancellable contexts that are done, and the calls of \<open>task.Execute\<close>
  that workers have completed, with what each returned. What \<open>Execute\<close> does is the
  task's own business: its result comes from outside, and the write of \<open>lastRun\<close> that a
  periodic task makes is a matter of the task alone (see above). The registry and the
  queue hold a handle as it was when it was stored; the scheduler reads none of its
  fields but the retry policy.
\<close>

record System = Scheduler +
  goroutines :: "goroutine list"
  cancelled :: "nat set"
  executed :: "(Task \<times> error option) list"

fun ctx_Done :: "System \<Rightarrow> ctx \<Rightarrow> bool" where
  "ctx_Done s Background = False"
| "ctx_Done s (Ctx n) = (n \<in> cancelled s)"

text \<open>
  \<open>make(chan Task, size)\<close> of the runtime panics when the size is negative, and when the
  buffer, that many elements of the size of a \<open>Task\<close>, does not fit under the limit of the
  allocator less the header of the channel. These are constants of the runtime, not of the
  repository; they are given for 64-bit Linux and Go 1.22, where the allocator spans \<open>2^48\<close>
  bytes, the header takes 96 bytes and a value of an interface is two words (a release
  that adds a field to the header lowers the limit by the size of the field). An
  allocation within the limit is taken to succeed.
\<close>

definition maxAlloc :: int where
  "maxAlloc = 2 ^ 48"

definition hchanSize :: int where
  "hchanSize = 96"

definition Task_size :: int where
  "Task_size = 16"

definition makechan_fits :: "int \<Rightarrow> bool" where
  "makechan_fits n = (0 \<le> n \<and> Task_size * n \<le> maxAlloc - hchanSize)"

text \<open>
  \<open>NewScheduler\<close>: its arguments are of the type \<open>int\<close> of Go, 64 bits wide and signed; the
  fields keep their values.
\<close>

definition NewScheduler :: "64 word \<Rightarrow> 64 word \<Rightarrow> System result" where
  "NewScheduler workers' queueSize' =
     (if \<not> makechan_fits (sint queueSize') then Panics ''makechan: size out of range''
      else Returns \<lparr>workers = sint workers', queueSize = sint queueSize', taskQueue = [],
                     periodicTask = (\<lambda>n. None), s_mu = False, wg = 0, quit = False,
                     goroutines = [], cancelled = {}, executed = []\<rparr>)"

text \<open>\<open>Start\<close>: one round of the loop is \<open>s.wg.Add(1); go s.worker()\<close>.\<close>

definition spawn_worker :: "System \<Rightarrow> System" where
  "spawn_worker s = s\<lparr>wg := wg s + 1, goroutines := goroutines s @ [W_select]\<rparr>"

definition Start :: "System \<Rightarrow> System" where
  "Start s = (spawn_worker ^^ nat (workers s)) s"

text \<open>
  \<open>SubmitTask\<close>: the send can proceed when a worker is parked in its receive, which then
  takes the task directly, or when the buffer has room. Otherwise the \<open>default\<close> case runs,
  which is empty. Which of several parked workers receives does not matter below; the
  first is taken.
\<close>

fun worker_parked :: "goroutine \<Rightarrow> bool" where
  "worker_parked W_parked = True"
| "worker_parked g = False"

fun first_parked :: "goroutine list \<Rightarrow> nat option" where
  "first_parked [] = None"
| "first_parked (g # gs) =
     (if worker_parked g then Some 0 else map_option Suc (first_parked gs))"

definition send_ready :: "System \<Rightarrow> bool" where
  "send_ready s =
     (first_parked (goroutines s) \<noteq> None \<or> int (length (taskQueue s)) < queueSize s)"

definition send :: "System \<Rightarrow> Task \<Rightarrow> System" where
  "send s task =
     (case first_parked (goroutines s) of
        Some i \<Rightarrow> s\<lparr>goroutines := (goroutines s)[i := W_execute task]\<rparr>
      | None \<Rightarrow> s\<lparr>taskQueue := taskQueue s @ [task]\<rparr>)"

definition SubmitTask :: "System \<Rightarrow> Task \<Rightarrow> System" where
  "SubmitTask s task = (if send_ready s then send s task else s)"

text \<open>
  \<open>worker\<close>, the \<open>select\<close>: with no case ready the worker parks; the first case, ready
  when the queue is not empty, receives the oldest task, and the worker calls its
  \<open>Execute\<close>; the second is the quit case.
\<close>

definition receive :: "System \<Rightarrow> nat \<Rightarrow> System" where
  "receive s i =
     (case taskQueue s of
        [] \<Rightarrow> s
      | task # rest \<Rightarrow>
          s\<lparr>taskQueue := rest, goroutines := (goroutines s)[i := W_execute task]\<rparr>)"

definition worker_select :: "System \<Rightarrow> nat \<Rightarrow> nat \<Rightarrow> System" where
  "worker_select s i choice =
     (case go_select [taskQueue s \<noteq> [], quit s] choice of
        None \<Rightarrow> s\<lparr>goroutines := (goroutines s)[i := W_parked]\<rparr>
      | Some k \<Rightarrow>
          if k = 0 then receive s i
          else s\<lparr>goroutines := (goroutines s)[i := W_return]\<rparr>)"

text \<open>
  \<open>worker\<close>, after \<open>err := task.Execute(ctx)\<close>: the branch for a failed task reads the
  retry policy and has an empty body; the loop goes back to the \<open>select\<close>.
\<close>

definition worker_after_Execute :: "System \<Rightarrow> nat \<Rightarrow> Task \<Rightarrow> error option \<Rightarrow> System" where
  "worker_after_Execute s i task err =
     (let s1 = s\<lparr>executed := executed s @ [(task, err)]\<rparr>;
          s2 = (if err \<noteq> None
                then (let policy = GetRetryPolicy task
                      in if 0 < MaxRetries policy then s1 else s1)
                else s1)
      in s2\<lparr>goroutines := (goroutines s2)[i := W_select]\<rparr>)"

text \<open>\<open>worker\<close>, the quit case: \<open>return\<close> runs the deferred \<open>s.wg.Done()\<close>.\<close>

definition worker_return :: "System \<Rightarrow> nat \<Rightarrow> System result" where
  "worker_return s i =
     (if wg s - 1 < 0 then Panics ''sync: negative WaitGroup counter''
      else Returns (s\<lparr>wg := wg s - 1, goroutines := (goroutines s)[i := W_exited]\<rparr>))"

text \<open>
  \<open>Stop\<close> is \<open>close(s.quit)\<close> followed by \<open>s.wg.Wait()\<close>. Closing a closed channel panics;
  closing wakes every goroutine parked in a \<open>select\<close> with a quit case, which then takes
  that case. \<open>Wait\<close> returns once the counter is zero.
\<close>

fun wake_quit :: "goroutine \<Rightarrow> goroutine" where
  "wake_quit W_parked = W_return"
| "wake_quit (R_parked t c) = R_return"
| "wake_quit g = g"

definition close_quit :: "System \<Rightarrow> System result" where
  "close_quit s =
     (if quit s then Panics ''close of closed channel''
      else Returns (s\<lparr>quit := True, goroutines := map wake_quit (goroutines s)\<rparr>))"

definition wg_Wait :: "System \<Rightarrow> System result" where
  "wg_Wait s = (if wg s = 0 then Returns s else Blocks)"

definition Stop :: "System \<Rightarrow> System result" where
  "Stop s = and_then (close_quit s) wg_Wait"

text \<open>
  \<open>NewPeriodicTask\<close>: \<open>now\<close> is what \<open>time.Now()\<close> reads. The statements on the registry
  extend the list of accesses made so far, as those of a periodic task do.
\<close>

definition s_Lock :: "System \<times> access list \<Rightarrow> (System \<times> access list) result" where
  "s_Lock x = (case x of (s, tr) \<Rightarrow>
     and_then (mutex_Lock (s_mu s)) (\<lambda>m. Returns (s\<lparr>s_mu := m\<rparr>, tr @ [Lock])))"

definition s_Unlock :: "System \<times> access list \<Rightarrow> (System \<times> access list) result" where
  "s_Unlock x = (case x of (s, tr) \<Rightarrow>
     and_then (mutex_Unlock (s_mu s)) (\<lambda>m. Returns (s\<lparr>s_mu := m\<rparr>, tr @ [Unlock])))"

definition s_set_periodicTask ::
  "string \<Rightarrow> PeriodicTask \<Rightarrow> System \<times> access list \<Rightarrow> (System \<times> access list) result" where
  "s_set_periodicTask name task x = (case x of (s, tr) \<Rightarrow>
     Returns (s\<lparr>periodicTask := (periodicTask s)(name := Some task)\<rparr>,
              tr @ [Write ''periodicTask'']))"

definition NewPeriodicTask ::
  "System \<Rightarrow> string \<Rightarrow> Duration \<Rightarrow> (ctx \<Rightarrow> error option) \<Rightarrow> int \<Rightarrow> Time
     \<Rightarrow> (PeriodicTask \<times> System \<times> access list) result" where
  "NewPeriodicTask s name interval' runFunc' priority now =
     (let task = \<lparr>Name = name, Priority = priority,
                   RetryPolicy = \<lparr>MaxRetries = 3, BackoffBase = 500 * millisecond\<rparr>,
                   interval = interval', lastRun = now, runFunc = runFunc', mu = False\<rparr>
      in and_then (s_Lock (s, [])) (\<lambda>x1.
         and_then (s_set_periodicTask name task x1) (\<lambda>x2.
         and_then (s_Unlock x2) (\<lambda>x3.
           case x3 of (s', tr) \<Rightarrow> Returns (task, s', tr)))))"

text \<open>The methods of the interface \<open>TaskScheduler\<close>; the second component is the error.\<close>

definition Schedule :: "System \<Rightarrow> ctx \<Rightarrow> Task \<Rightarrow> System \<times> error option" where
  "Schedule s c task = (SubmitTask s task, None)"

definition ScheduleWithDelay ::
  "System \<Rightarrow> ctx \<Rightarrow> Task \<Rightarrow> Duration \<Rightarrow> System \<times> error option" where
  "ScheduleWithDelay s c task delay =
     (s\<lparr>goroutines := goroutines s @ [D_select task c False]\<rparr>, None)"

definition ScheduleRecurring ::
  "System \<Rightarrow> ctx \<Rightarrow> Task \<Rightarrow> Duration \<Rightarrow> System \<times> error option" where
  "ScheduleRecurring s c task interval' =
     (s\<lparr>goroutines := goroutines s @ [R_start task c interval']\<rparr>, None)"

definition Cancel :: "System \<Rightarrow> string \<Rightarrow> System \<times> error option" where
  "Cancel s taskName = (s, None)"

definition StartWithContext :: "System \<Rightarrow> ctx \<Rightarrow> System \<times> error option" where
  "StartWithContext s c = (Start s, None)"

text \<open>
  The goroutine of \<open>ScheduleWithDelay\<close>: the \<open>select\<close> on \<open>timer.C\<close> and \<open>ctx.Done()\<close>,
  then the body of the case taken.
\<close>

definition delay_select :: "System \<Rightarrow> nat \<Rightarrow> Task \<Rightarrow> ctx \<Rightarrow> bool \<Rightarrow> nat \<Rightarrow> System" where
  "delay_select s i task c fired choice =
     (case go_select [fired, ctx_Done s c] choice of
        None \<Rightarrow> s\<lparr>goroutines := (goroutines s)[i := D_parked task c]\<rparr>
      | Some k \<Rightarrow>
          if k = 0 then s\<lparr>goroutines := (goroutines s)[i := D_submit task]\<rparr>
          else s\<lparr>goroutines := (goroutines s)[i := D_stop]\<rparr>)"

definition delay_submit :: "System \<Rightarrow> nat \<Rightarrow> Task \<Rightarrow> System" where
  "delay_submit s i task =
     (let s' = SubmitTask s task
      in s'\<lparr>goroutines := (goroutines s')[i := D_exited False]\<rparr>)"

definition delay_stop :: "System \<Rightarrow> nat \<Rightarrow> System" where
  "delay_stop s i = s\<lparr>goroutines := (goroutines s)[i := D_exited True]\<rparr>"

text \<open>
  The goroutine of \<open>ScheduleRecurring\<close>: \<open>time.NewTicker\<close> panics unless the interval is
  positive; then the loop around the \<open>select\<close> on \<open>ticker.C\<close>, \<open>ctx.Done()\<close> and \<open>s.quit\<close>.
\<close>

definition recurring_start :: "System \<Rightarrow> nat \<Rightarrow> Task \<Rightarrow> ctx \<Rightarrow> Duration \<Rightarrow> System result" where
  "recurring_start s i task c interval' =
     (if interval' \<le> 0 then Panics ''non-positive interval for NewTicker''
      else Returns (s\<lparr>goroutines := (goroutines s)[i := R_select task c False]\<rparr>))"

definition recurring_select :: "System \<Rightarrow> nat \<Rightarrow> Task \<Rightarrow> ctx \<Rightarrow> bool \<Rightarrow> nat \<Rightarrow> System" where
  "recurring_select s i task c tick choice =
     (case go_select [tick, ctx_Done s c, quit s] choice of
        None \<Rightarrow> s\<lparr>goroutines := (goroutines s)[i := R_parked task c]\<rparr>
      | Some k \<Rightarrow>
          if k = 0 then s\<lparr>goroutines := (goroutines s)[i := R_submit task c False]\<rparr>
          else s\<lparr>goroutines := (goroutines s)[i := R_return]\<rparr>)"

definition recurring_submit :: "System \<Rightarrow> nat \<Rightarrow> Task \<Rightarrow> ctx \<Rightarrow> bool \<Rightarrow> System" where
  "recurring_submit s i task c tick =
     (let s' = SubmitTask s task
      in s'\<lparr>goroutines := (goroutines s')[i := R_select task c tick]\<rparr>)"

definition recurring_return :: "System \<Rightarrow> nat \<Rightarrow> System" where
  "recurring_return s i = s\<lparr>goroutines := (goroutines s)[i := R_exited]\<rparr>"

text \<open>
  Goroutine \<open>i\<close> runs its next statement; \<open>choice\<close> is the runtime's pick should the
  statement be a \<open>select\<close>. A goroutine that is parked, inside \<open>Execute\<close> or gone has no
  statement to run.
\<close>

definition go :: "System \<Rightarrow> nat \<Rightarrow> nat \<Rightarrow> System result" where
  "go s i choice =
     (if length (goroutines s) \<le> i then Blocks
      else case goroutines s ! i of
          W_select \<Rightarrow> Returns (worker_select s i choice)
        | W_return \<Rightarrow> worker_return s i
        | D_select task c fired \<Rightarrow> Returns (delay_select s i task c fired choice)
        | D_submit task \<Rightarrow> Returns (delay_submit s i task)
        | D_stop \<Rightarrow> Returns (delay_stop s i)
        | R_start task c d \<Rightarrow> recurring_start s i task c d
        | R_select task c tick \<Rightarrow> Returns (recurring_select s i task c tick choice)
        | R_submit task c tick \<Rightarrow> Returns (recurring_submit s i task c tick)
        | R_return \<Rightarrow> Returns (recurring_return s i)
        | _ \<Rightarrow> Blocks)"

text \<open>The call of \<open>task.Execute\<close> that worker \<open>i\<close> is in returns \<open>err\<close>.\<close>

definition Execute_returns :: "System \<Rightarrow> nat \<Rightarrow> error option \<Rightarrow> System result" where
  "Execute_returns s i err =
     (if length (goroutines s) \<le> i then Blocks
      else case goroutines s ! i of
          W_execute task \<Rightarrow> Returns (worker_after_Execute s i task err)
        | _ \<Rightarrow> Blocks)"

text \<open>
  What happens to the channels the goroutines wait on. The timer of goroutine \<open>i\<close> fires:
  a goroutine parked on it takes the timer case. The ticker of goroutine \<open>i\<close> ticks: a
  goroutine parked on it takes the tick, otherwise the tick waits in the channel, or is
  dropped when one waits already. A context is cancelled: its \<open>Done\<close> channel is closed,
  and every goroutine parked on it takes that case.
\<close>

definition timer_fires :: "System \<Rightarrow> nat \<Rightarrow> System result" where
  "timer_fires s i =
     (if length (goroutines s) \<le> i then Blocks
      else case goroutines s ! i of
          D_select task c fired \<Rightarrow>
            if fired then Blocks
            else Returns (s\<lparr>goroutines := (goroutines s)[i := D_select task c True]\<rparr>)
        | D_parked task c \<Rightarrow> Returns (s\<lparr>goroutines := (goroutines s)[i := D_submit task]\<rparr>)
        | _ \<Rightarrow> Blocks)"

definition ticker_ticks :: "System \<Rightarrow> nat \<Rightarrow> System result" where
  "ticker_ticks s i =
     (if length (goroutines s) \<le> i then Blocks
      else case goroutines s ! i of
          R_select task c tick \<Rightarrow>
            Returns (s\<lparr>goroutines := (goroutines s)[i := R_select task c True]\<rparr>)
        | R_parked task c \<Rightarrow>
            Returns (s\<lparr>goroutines := (goroutines s)[i := R_submit task c False]\<rparr>)
        | R_submit task c tick \<Rightarrow>
            Returns (s\<lparr>goroutines := (goroutines s)[i := R_submit task c True]\<rparr>)
        | _ \<Rightarrow> Blocks)"

fun wake_ctx :: "ctx \<Rightarrow> goroutine \<Rightarrow> goroutine" where
  "wake_ctx c (D_parked t c') = (if c' = c then D_stop else D_parked t c')"
| "wake_ctx c (R_parked t c') = (if c' = c then R_return else R_parked t c')"
| "wake_ctx c g = g"

definition cancel_ctx :: "System \<Rightarrow> nat \<Rightarrow> System" where
  "cancel_ctx s n =
     (if n \<in> cancelled s then s
      else s\<lparr>cancelled := insert n (cancelled s),
             goroutines := map (wake_ctx (Ctx n)) (goroutines s)\<rparr>)"

subsection \<open>Runs of the program\<close>

text \<open>
  What can happen next: a call of a method of the scheduler by some goroutine of the
  caller's, a step of a goroutine the scheduler has spawned, or an event on a channel.
  \<open>Stop\<close> is two actions, its \<open>close(s.quit)\<close> and the return of its \<open>s.wg.Wait()\<close>.
\<close>

datatype action =
    Call_Start
  | Call_StartWithContext ctx
  | Call_SubmitTask Task
  | Call_Schedule ctx Task
  | Call_ScheduleWithDelay ctx Task Duration
  | Call_ScheduleRecurring ctx Task Duration
  | Call_Cancel string
  | Call_NewPeriodicTask string Duration "ctx \<Rightarrow> error option" int Time
  | Call_Stop
  | Stop_returns
  | Go nat nat
  | Execute_done nat "error option"
  | Timer_fires nat
  | Ticker_ticks nat
  | Cancel_ctx nat

fun step :: "action \<Rightarrow> System \<Rightarrow> System result" where
  "step Call_Start s = Returns (Start s)"
| "step (Call_StartWithContext c) s = Returns (fst (StartWithContext s c))"
| "step (Call_SubmitTask task) s = Returns (SubmitTask s task)"
| "step (Call_Schedule c task) s = Returns (fst (Schedule s c task))"
| "step (Call_ScheduleWithDelay c task d) s = Returns (fst (ScheduleWithDelay s c task d))"
| "step (Call_ScheduleRecurring c task d) s = Returns (fst (ScheduleRecurring s c task d))"
| "step (Call_Cancel name) s = Returns (fst (Cancel s name))"
| "step (Call_NewPeriodicTask name d f prio now) s =
     and_then (NewPeriodicTask s name d f prio now) (\<lambda>r. Returns (fst (snd r)))"
| "step Call_Stop s = close_quit s"
| "step Stop_returns s = (if quit s then wg_Wait s else Blocks)"
| "step (Go i choice) s = go s i choice"
| "step (Execute_done i err) s = Execute_returns s i err"
| "step (Timer_fires i) s = timer_fires s i"
| "step (Ticker_ticks i) s = ticker_ticks s i"
| "step (Cancel_ctx n) s = Returns (cancel_ctx s n)"

fun run :: "action list \<Rightarrow> System \<Rightarrow> System result" where
  "run [] s = Returns s"
| "run (a # as) s = and_then (step a s) (run as)"

text \<open>The goroutines that run \<open>worker\<close> and have not returned; the goroutines not gone.\<close>

fun is_worker :: "goroutine \<Rightarrow> bool" where
  "is_worker W_select = True"
| "is_worker W_parked = True"
| "is_worker (W_execute t) = True"
| "is_worker W_return = True"
| "is_worker g = False"

fun alive :: "goroutine \<Rightarrow> bool" where
  "alive W_exited = False"
| "alive (D_exited b) = False"
| "alive R_exited = False"
| "alive g = True"

subsection \<open>The entry point (main.go)\<close>

text \<open>
  What \<open>main\<close> does with its scheduler: \<open>NewScheduler(5, 50)\<close>, \<open>Start()\<close>, the deferred
  \<open>Stop()\<close> and the deferred \<open>cancel()\<close> of its context, which is \<open>Ctx 0\<close> here,
  registered; then everything up to the stop signal,
  \<open>running\<close>, which holds the registrations and submissions of \<open>main\<close> and the steps of
  the goroutines; then \<open>scheduler.Stop()\<close>, with \<open>stopping\<close> the steps of the goroutines
  while it waits; then the return of \<open>main\<close>, which runs the deferred calls, last
  registered first.
\<close>

definition main :: "action list \<Rightarrow> action list \<Rightarrow> System result" where
  "main running stopping =
     and_then (NewScheduler 5 50) (\<lambda>s0.
     and_then (run (Call_Start # running) s0) (\<lambda>s1.
     and_then (run (Call_Stop # stopping @ [Stop_returns]) s1) (\<lambda>s2.
     and_then (run [Cancel_ctx 0] s2) (\<lambda>s3.
       step Call_Stop s3))))"

section \<open>GetFundingStatsTask.Execute (task/task.go)\<close>

text \<open>
  The loop of \<open>Execute\<close>, of which the scheduler sees nothing. \<open>api n\<close> is the error of the
  request made in attempt \<open>n\<close>; \<open>done_at n\<close> tells whether the context is done when attempt
  \<open>n\<close> begins, \<open>done_in_backoff n\<close> whether it becomes done before the wait after attempt
  \<open>n\<close> is over, and \<open>ctx_err\<close> is the error of the context once it is done. The result is
  the number of requests made, the attempts after which the task waited, and the error
  returned, \<open>err\<close> being the error of the last request. Every return sends the result on
  the channel of the task first; the channel is taken to have room.
\<close>

function retry_loop ::
  "(nat \<Rightarrow> error option) \<Rightarrow> (nat \<Rightarrow> bool) \<Rightarrow> (nat \<Rightarrow> bool) \<Rightarrow> error \<Rightarrow> int
     \<Rightarrow> nat \<Rightarrow> nat list \<Rightarrow> error option \<Rightarrow> nat \<times> nat list \<times> error option" where
  "retry_loop api done_at done_in_backoff ctx_err maxRetries attempt waits err =
     (if int attempt \<le> maxRetries
      then if done_at attempt then (attempt, waits, Some ctx_err)
           else case api attempt of
               None \<Rightarrow> (attempt + 1, waits, None)
             | Some e \<Rightarrow>
                 if int attempt < maxRetries
                 then if done_in_backoff attempt
                      then (attempt + 1, waits @ [attempt], Some ctx_err)
                      else retry_loop api done_at done_in_backoff ctx_err maxRetries
                             (attempt + 1) (waits @ [attempt]) (Some e)
                 else retry_loop api done_at done_in_backoff ctx_err maxRetries
                        (attempt + 1) waits (Some e)
      else (attempt, waits, err))"
  by pat_completeness auto
termination
  by (relation "measure (\<lambda>(api, d, b, c, m, a, w, e). nat (m + 1 - int a))") auto

definition GetFundingStatsTask_Execute ::
  "'a BaseTask_scheme \<Rightarrow> (nat \<Rightarrow> error option) \<Rightarrow> (nat \<Rightarrow> bool) \<Rightarrow> (nat \<Rightarrow> bool)
     \<Rightarrow> error \<Rightarrow> nat \<times> nat list \<times> error option" where
  "GetFundingStatsTask_Execute t api done_at done_in_backoff ctx_err =
     retry_loop api done_at done_in_backoff ctx_err (MaxRetries (RetryPolicy t)) 0 [] None"

section \<open>The retry executor as the specification words it\<close>

text \<open>
  \<open>executeWithRetry\<close> of the specification, for a context that is never cancelled:
  the attempt count starts at 0; a success returns after that attempt; a failure with
  \<open>attempt < maxRetries\<close> sleeps \<open>backoffBase * 2^attempt\<close> and tries again; a failure
  with \<open>attempt = maxRetries\<close> returns the last error. \<open>outcome n\<close> is the error of the
  invocation of \<open>execute\<close> in attempt \<open>n\<close>. The result is the number of invocations, the
  sleeps and the error.
\<close>

function spec_executeWithRetry ::
  "(nat \<Rightarrow> error option) \<Rightarrow> RetryPolicy \<Rightarrow> nat \<Rightarrow> Duration list
     \<Rightarrow> nat \<times> Duration list \<times> error option" where
  "spec_executeWithRetry outcome policy attempt sleeps =
     (case outcome attempt of
        None \<Rightarrow> (attempt + 1, sleeps, None)
      | Some e \<Rightarrow>
          if int attempt < MaxRetries policy
          then spec_executeWithRetry outcome policy (attempt + 1)
                 (sleeps @ [BackoffBase policy * 2 ^ attempt])
          else (attempt + 1, sleeps, Some e))"
  by pat_completeness auto
termination
  by (relation "measure (\<lambda>(out, pol, a, sl). nat (MaxRetries pol - int a))") auto

text \<open>How often the workers have completed \<open>Execute\<close> of a task of the given name.\<close>

definition executions :: "System \<Rightarrow> string \<Rightarrow> nat" where
  "executions s name = length (filter (\<lambda>x. GetName (fst x) = name) (executed s))"

text \<open>
  The workers that have not returned, counted; and the statement that the counter of the
  wait group is their number.
\<close>

definition live_workers :: "System \<Rightarrow> nat" where
  "live_workers s = length (filter is_worker (goroutines s))"

definition wg_counts_workers :: "System \<Rightarrow> bool" where
  "wg_counts_workers s = (wg s = int (live_workers s))"

text \<open>
  Calls of \<open>Execute\<close> and \<open>ShouldRun\<close> in progress: a goroutine is between its \<open>Lock\<close> and
  its \<open>Unlock\<close> when an access to \<open>lastRun\<close> or the \<open>Unlock\<close> is its next statement; what a
  goroutine has still to run is the rest of one of the two bodies; and the mutex is held
  by the one goroutine that is between its \<open>Lock\<close> and its \<open>Unlock\<close>, if there is one.
\<close>

fun in_section :: "pstmt list \<Rightarrow> bool" where
  "in_section (St_set_lastRun t # sts) = True"
| "in_section (St_get_lastRun # sts) = True"
| "in_section (St_Unlock # sts) = True"
| "in_section sts = False"

fun after_Lock :: "pstmt list \<Rightarrow> bool" where
  "after_Lock (St_set_lastRun t # sts) = (sts = [St_Unlock, St_runFunc])"
| "after_Lock (St_get_lastRun # sts) = (sts = [St_Unlock])"
| "after_Lock sts = False"

fun in_call :: "pstmt list \<Rightarrow> bool" where
  "in_call [] = True"
| "in_call (St_Lock # sts) = after_Lock sts"
| "in_call (St_set_lastRun t # sts) = (sts = [St_Unlock, St_runFunc])"
| "in_call (St_get_lastRun # sts) = (sts = [St_Unlock])"
| "in_call (St_Unlock # sts) = (sts = [] \<or> sts = [St_runFunc])"
| "in_call (St_runFunc # sts) = (sts = [])"

definition pcalls_inv :: "pcalls \<Rightarrow> nat option \<Rightarrow> bool" where
  "pcalls_inv x h = (case x of (ths, p, log) \<Rightarrow>
     (\<forall>k < length ths. in_call (ths ! k))
   \<and> held_by None log = Some h
   \<and> (\<forall>k < length ths. in_section (ths ! k) = (h = Some k))
   \<and> (\<forall>k. h = Some k \<longrightarrow> k < length ths)
   \<and> mu p = (h \<noteq> None))"

definition remaining :: "pcalls \<Rightarrow> nat" where
  "remaining x = sum_list (map length (fst x))"

section \<open>Sample values\<close>

text \<open>
  Two tasks as \<open>NewGetFundingTickerTask\<close> builds them, and the handle that \<open>main\<close> registers
  for the funding book of \<open>fUSD\<close>, with a closure that succeeds.
\<close>

definition fundingTicker_fUSD :: Task where
  "fundingTicker_fUSD =
     OtherT \<lparr>Name = ''GetFundingTicker_fUSD'', Priority = 3,
             RetryPolicy = \<lparr>MaxRetries = 3, BackoffBase = 500 * millisecond\<rparr>\<rparr>"

definition fundingTicker_fUST :: Task where
  "fundingTicker_fUST =
     OtherT \<lparr>Name = ''GetFundingTicker_fUST'', Priority = 3,
             RetryPolicy = \<lparr>MaxRetries = 3, BackoffBase = 500 * millisecond\<rparr>\<rparr>"

definition fundingBook_fUSD :: "Time \<Rightarrow> PeriodicTask" where
  "fundingBook_fUSD now =
     \<lparr>Name = ''FundingBook_fUSD'', Priority = 3,
      RetryPolicy = \<lparr>MaxRetries = 3, BackoffBase = 500 * millisecond\<rparr>,
      interval = 60000 * millisecond, lastRun = now, runFunc = (\<lambda>c. None), mu = False\<rparr>"

text \<open>
  A run of \<open>main\<close>: up to the stop signal it registers and submits the handle for the
  funding book, one worker executes it, and all five workers park; while \<open>Stop()\<close> waits,
  the five workers return.
\<close>

definition main_running :: "action list" where
  "main_running =
     [Call_NewPeriodicTask ''FundingBook_fUSD'' (60000 * millisecond) (\<lambda>c. None) 3 1000,
      Call_SubmitTask (PeriodicT (fundingBook_fUSD 1000)),
      Go 0 0, Execute_done 0 None, Go 0 0, Go 1 0, Go 2 0, Go 3 0, Go 4 0]"

definition main_stopping :: "action list" where
  "main_stopping = [Go 0 0, Go 1 0, Go 2 0, Go 3 0, Go 4 0]"

section \<open>Auxiliary facts\<close>

lemmas NewScheduler_defs = NewScheduler_def makechan_fits_def maxAlloc_def hchanSize_def
  Task_size_def

lemmas p_defs = Execute_def ShouldRun_def p_Lock_def p_Unlock_def p_set_lastRun_def
  p_get_lastRun_def and_then_def mutex_Lock_def mutex_Unlock_def

lemmas s_defs = NewPeriodicTask_def s_Lock_def s_Unlock_def s_set_periodicTask_def
  and_then_def mutex_Lock_def mutex_Unlock_def

lemma time_Since_past:
  "is_Duration i \<Longrightarrow> minDuration \<le> now - u \<Longrightarrow>
     (i \<le> time_Since now u) = (i \<le> now - u)"
  by (auto simp: time_Since_def time_Sub_def is_Duration_def minDuration_def maxDuration_def
        Let_def)

lemma spawn_worker_funpow:
  "(spawn_worker ^^ n) s =
     s\<lparr>wg := wg s + int n, goroutines := goroutines s @ replicate n W_select\<rparr>"
proof (induction n)
  case 0
  show ?case by simp
next
  case (Suc n)
  have "replicate n W_select @ [W_select] = W_select # replicate n W_select"
    by (simp add: replicate_append_same)
  with Suc show ?case by (simp add: spawn_worker_def)
qed

lemma Start_eq:
  "Start s = s\<lparr>wg := wg s + int (nat (workers s)),
              goroutines := goroutines s @ replicate (nat (workers s)) W_select\<rparr>"
  by (simp add: Start_def spawn_worker_funpow)

lemma SubmitTask_cases:
  "SubmitTask s task =
     (case first_parked (goroutines s) of
        Some i \<Rightarrow> s\<lparr>goroutines := (goroutines s)[i := W_execute task]\<rparr>
      | None \<Rightarrow> if int (length (taskQueue s)) < queueSize s
                then s\<lparr>taskQueue := taskQueue s @ [task]\<rparr> else s)"
  by (simp add: SubmitTask_def send_ready_def send_def split: option.splits)

lemma first_parked_Some:
  "first_parked gs = Some i \<Longrightarrow> i < length gs \<and> gs ! i = W_parked"
proof (induction gs arbitrary: i)
  case Nil
  then show ?case by simp
next
  case (Cons g gs)
  then show ?case
    by (cases g) (auto split: if_splits)
qed

lemma run_append: "run (as @ bs) s = and_then (run as s) (run bs)"
  by (induction as arbitrary: s) (auto simp: and_then_def split: result.splits)

lemmas go_defs = go_def worker_select_def receive_def worker_return_def delay_select_def delay_submit_def
  delay_stop_def recurring_start_def recurring_select_def recurring_submit_def
  recurring_return_def

lemmas step_defs = go_defs Execute_returns_def worker_after_Execute_def timer_fires_def
  ticker_ticks_def cancel_ctx_def close_quit_def wg_Wait_def Start_eq StartWithContext_def
  Schedule_def ScheduleWithDelay_def ScheduleRecurring_def Cancel_def SubmitTask_cases
  s_defs

lemma step_quit: "step a s = Returns s' \<Longrightarrow> quit s \<Longrightarrow> quit s'"
  by (cases a)
     (auto simp: step_defs Let_def
           split: if_splits option.splits list.splits goroutine.splits result.splits)

lemma run_quit: "run as s = Returns s' \<Longrightarrow> quit s \<Longrightarrow> quit s'"
proof (induction as arbitrary: s)
  case Nil
  then show ?case by simp
next
  case (Cons a as)
  then show ?case
    by (auto simp: and_then_def split: result.splits dest: step_quit)
qed

lemma nth_mod2: "[x, y] ! (ch mod Suc (Suc 0)) = (if even ch then x else y)"
proof (cases "even ch")
  case True
  then have "ch mod Suc (Suc 0) = 0" by presburger
  with True show ?thesis by simp
next
  case False
  then have "ch mod Suc (Suc 0) = Suc 0" by presburger
  with False show ?thesis by simp
qed

lemma upt2: "[0..<2] = [0, Suc 0]"
  by (simp add: upt_rec [of 0] upt_rec [of "Suc 0"])

lemma upt3: "[0..<3] = [0, Suc 0, 2]"
  by (simp add: upt_rec [of 0] upt_rec [of "Suc 0"] upt_rec [of 2] upt_rec [of "Suc (Suc 0)"])

lemma go_select2:
  "go_select [a, b] ch =
     (if a then (if b then Some (if even ch then 0 else 1) else Some 0)
      else if b then Some 1 else None)"
  by (simp add: go_select_def upt2 Let_def nth_mod2)

lemma go_select3_tick: "go_select [True, False, False] ch = Some 0"
  by (simp add: go_select_def upt3 Let_def)

lemma go_select3_none: "go_select [False, False, False] ch = None"
  by (simp add: go_select_def upt3 Let_def)


lemma filter_update_same:
  "i < length xs \<Longrightarrow> P (xs ! i) = P y \<Longrightarrow>
     length (filter P (xs[i := y])) = length (filter P xs)"
proof (induction xs arbitrary: i)
  case Nil
  then show ?case by simp
next
  case (Cons x xs)
  then show ?case by (cases i) auto
qed

lemma filter_update_drop:
  "i < length xs \<Longrightarrow> P (xs ! i) \<Longrightarrow> \<not> P y \<Longrightarrow>
     Suc (length (filter P (xs[i := y]))) = length (filter P xs)"
proof (induction xs arbitrary: i)
  case Nil
  then show ?case by simp
next
  case (Cons x xs)
  then show ?case by (cases i) auto
qed

lemma is_worker_wake_quit: "is_worker \<circ> wake_quit = is_worker"
proof
  fix g
  show "(is_worker \<circ> wake_quit) g = is_worker g" by (cases g) auto
qed

lemma is_worker_wake_ctx: "is_worker \<circ> wake_ctx c = is_worker"
proof
  fix g
  show "(is_worker \<circ> wake_ctx c) g = is_worker g" by (cases g) auto
qed

lemma SubmitTask_workers:
  "wg (SubmitTask s t) = wg s \<and> quit (SubmitTask s t) = quit s
   \<and> live_workers (SubmitTask s t) = live_workers s
   \<and> length (goroutines (SubmitTask s t)) = length (goroutines s)"
  by (auto simp: SubmitTask_cases live_workers_def filter_update_same
        split: option.splits dest!: first_parked_Some)

lemma SubmitTask_nth:
  "i < length (goroutines s) \<Longrightarrow> \<not> is_worker (goroutines s ! i) \<Longrightarrow>
     goroutines (SubmitTask s t) ! i = goroutines s ! i"
  by (auto simp: SubmitTask_cases nth_list_update split: option.splits
        dest!: first_parked_Some)

lemma go_workers:
  assumes "go s i choice = Returns s'" and "wg_counts_workers s"
  shows "wg_counts_workers s'"
proof -
  from assms(1) have i: "i < length (goroutines s)"
    by (auto simp: go_def split: if_splits)
  show ?thesis
  proof (cases "goroutines s ! i")
    case W_select
    with assms i show ?thesis
      by (auto simp: go_def worker_select_def receive_def wg_counts_workers_def
            live_workers_def filter_update_same split: option.splits list.splits)
  next
    case W_return
    with assms i show ?thesis
      using filter_update_drop [of i "goroutines s" is_worker W_exited]
      by (auto simp: go_def worker_return_def wg_counts_workers_def live_workers_def
            split: if_splits)
  next
    case (D_select t c f)
    with assms i show ?thesis
      by (auto simp: go_def delay_select_def wg_counts_workers_def live_workers_def
            filter_update_same split: option.splits)
  next
    case (D_submit t)
    with assms i show ?thesis
      using SubmitTask_workers [of s t] SubmitTask_nth [of i s t]
      by (auto simp: go_def delay_submit_def wg_counts_workers_def live_workers_def
            filter_update_same Let_def)
  next
    case D_stop
    with assms i show ?thesis
      by (auto simp: go_def delay_stop_def wg_counts_workers_def live_workers_def
            filter_update_same)
  next
    case (R_start t c d)
    with assms i show ?thesis
      by (auto simp: go_def recurring_start_def wg_counts_workers_def live_workers_def
            filter_update_same split: if_splits)
  next
    case (R_select t c f)
    with assms i show ?thesis
      by (auto simp: go_def recurring_select_def wg_counts_workers_def live_workers_def
            filter_update_same split: option.splits)
  next
    case (R_submit t c f)
    with assms i show ?thesis
      using SubmitTask_workers [of s t] SubmitTask_nth [of i s t]
      by (auto simp: go_def recurring_submit_def wg_counts_workers_def live_workers_def
            filter_update_same Let_def)
  next
    case R_return
    with assms i show ?thesis
      by (auto simp: go_def recurring_return_def wg_counts_workers_def live_workers_def
            filter_update_same)
  qed (use assms i in \<open>auto simp: go_def\<close>)
qed

lemma step_workers:
  assumes "step a s = Returns s'" and "wg_counts_workers s"
  shows "wg_counts_workers s'"
proof (cases a)
  case (Go i choice)
  with assms show ?thesis by (auto dest: go_workers)
next
  case (Call_SubmitTask t)
  with assms show ?thesis
    using SubmitTask_workers [of s t] by (auto simp: wg_counts_workers_def)
next
  case (Call_Schedule c t)
  with assms show ?thesis
    using SubmitTask_workers [of s t] by (auto simp: wg_counts_workers_def Schedule_def)
next
  case Call_Stop
  with assms show ?thesis
    by (auto simp: close_quit_def wg_counts_workers_def live_workers_def is_worker_wake_quit
          split: if_splits)
next
  case (Cancel_ctx n)
  with assms show ?thesis
    by (auto simp: cancel_ctx_def wg_counts_workers_def live_workers_def is_worker_wake_ctx
          split: if_splits)
next
  case (Execute_done i err)
  with assms show ?thesis
    by (auto simp: Execute_returns_def worker_after_Execute_def wg_counts_workers_def
          live_workers_def filter_update_same Let_def split: if_splits goroutine.splits)
next
  case (Timer_fires i)
  with assms show ?thesis
    by (auto simp: timer_fires_def wg_counts_workers_def
          live_workers_def filter_update_same split: if_splits goroutine.splits)
next
  case (Ticker_ticks i)
  with assms show ?thesis
    by (auto simp: ticker_ticks_def wg_counts_workers_def
          live_workers_def filter_update_same split: if_splits goroutine.splits)
next
  case (Call_NewPeriodicTask name d f prio now)
  with assms show ?thesis
    by (auto simp: s_defs Let_def wg_counts_workers_def live_workers_def
          split: if_splits result.splits)
qed (use assms in \<open>auto simp: Start_eq StartWithContext_def ScheduleWithDelay_def
       ScheduleRecurring_def Cancel_def wg_Wait_def wg_counts_workers_def live_workers_def
       split: if_splits\<close>)

lemma run_workers:
  "run as s = Returns s' \<Longrightarrow> wg_counts_workers s \<Longrightarrow> wg_counts_workers s'"
proof (induction as arbitrary: s)
  case Nil
  then show ?case by simp
next
  case (Cons a as)
  then show ?case
    by (auto simp: and_then_def split: result.splits dest: step_workers)
qed

lemma NewScheduler_workers: "NewScheduler w q = Returns s \<Longrightarrow> wg_counts_workers s"
  by (auto simp: NewScheduler_defs wg_counts_workers_def live_workers_def split: if_splits)

lemma gone_not_worker: "\<not> alive g \<Longrightarrow> \<not> is_worker g"
  by (cases g) auto

lemma gone_wake_quit: "\<not> alive g \<Longrightarrow> wake_quit g = g"
  by (cases g) auto

lemma gone_wake_ctx: "\<not> alive g \<Longrightarrow> wake_ctx c g = g"
  by (cases g) auto

lemma SubmitTask_gone:
  assumes "i < length (goroutines s)" and "\<not> alive (goroutines s ! i)"
  shows "i < length (goroutines (SubmitTask s t))
       \<and> goroutines (SubmitTask s t) ! i = goroutines s ! i"
  using assms SubmitTask_workers [of s t] SubmitTask_nth [of i s t]
  by (simp add: gone_not_worker)

lemma go_gone:
  assumes "go s j choice = Returns s'" and "i < length (goroutines s)"
    and "\<not> alive (goroutines s ! i)"
  shows "i < length (goroutines s') \<and> goroutines s' ! i = goroutines s ! i"
proof (cases "j = i")
  case True
  with assms show ?thesis
    by (cases "goroutines s ! i") (auto simp: go_def)
next
  case False
  from assms(1) have j: "j < length (goroutines s)"
    by (auto simp: go_def split: if_splits)
  show ?thesis
  proof (cases "goroutines s ! j")
    case (D_submit t)
    with assms j False show ?thesis
      using SubmitTask_gone [of i s t]
      by (auto simp: go_def delay_submit_def Let_def)
  next
    case (R_submit t c f)
    with assms j False show ?thesis
      using SubmitTask_gone [of i s t]
      by (auto simp: go_def recurring_submit_def Let_def)
  qed (use assms j False in \<open>auto simp: go_defs split: option.splits list.splits if_splits\<close>)
qed

lemma step_gone:
  assumes "step a s = Returns s'" and "i < length (goroutines s)"
    and "\<not> alive (goroutines s ! i)"
  shows "i < length (goroutines s') \<and> goroutines s' ! i = goroutines s ! i"
proof (cases a)
  case (Go j choice)
  with assms show ?thesis by (auto dest: go_gone)
next
  case (Call_SubmitTask t)
  with assms show ?thesis
    using SubmitTask_gone [of i s t] by auto
next
  case (Call_Schedule c t)
  with assms show ?thesis
    using SubmitTask_gone [of i s t] by (auto simp: Schedule_def)
next
  case Call_Stop
  with assms show ?thesis
    by (auto simp: close_quit_def gone_wake_quit split: if_splits)
next
  case (Cancel_ctx n)
  with assms show ?thesis
    by (auto simp: cancel_ctx_def gone_wake_ctx split: if_splits)
next
  case (Execute_done j err)
  with assms show ?thesis
    by (cases "j = i")
       (auto simp: Execute_returns_def worker_after_Execute_def Let_def
             split: if_splits goroutine.splits)
next
  case (Timer_fires j)
  with assms show ?thesis
    by (cases "j = i")
       (auto simp: timer_fires_def split: if_splits goroutine.splits)
next
  case (Ticker_ticks j)
  with assms show ?thesis
    by (cases "j = i")
       (auto simp: ticker_ticks_def split: if_splits goroutine.splits)
next
  case (Call_NewPeriodicTask name d f prio now)
  with assms show ?thesis
    by (auto simp: s_defs Let_def split: if_splits result.splits)
qed (use assms in \<open>auto simp: Start_eq StartWithContext_def ScheduleWithDelay_def
       ScheduleRecurring_def Cancel_def wg_Wait_def nth_append split: if_splits\<close>)

lemma run_gone:
  "run as s = Returns s' \<Longrightarrow> i < length (goroutines s) \<Longrightarrow> \<not> alive (goroutines s ! i) \<Longrightarrow>
     i < length (goroutines s') \<and> goroutines s' ! i = goroutines s ! i"
proof (induction as arbitrary: s)
  case Nil
  then show ?case by simp
next
  case (Cons a as)
  from Cons.prems(1) obtain t where t: "step a s = Returns t" and r: "run as t = Returns s'"
    by (auto simp: and_then_def split: result.splits)
  from step_gone [OF t Cons.prems(2,3)]
  have "i < length (goroutines t)" "goroutines t ! i = goroutines s ! i" by simp_all
  with Cons.IH [OF r] Cons.prems(3) show ?case by simp
qed

lemmas eval_defs = NewScheduler_defs and_then_def step_defs go_select2 Let_def

lemma Stop_closed: "quit s \<Longrightarrow> Stop s = Panics ''close of closed channel''"
  by (simp add: Stop_def close_quit_def and_then_def)

lemma Call_Stop_closed: "quit s \<Longrightarrow> step Call_Stop s = Panics ''close of closed channel''"
  by (simp add: close_quit_def)

lemma Call_Stop_closes: "step Call_Stop s = Returns s' \<Longrightarrow> quit s'"
  by (auto simp: close_quit_def split: if_splits)

lemma main_after_Stop:
  assumes "NewScheduler 5 50 = Returns s0"
    and "run (Call_Start # running) s0 = Returns s1"
    and "run (Call_Stop # stopping @ [Stop_returns]) s1 = Returns s2"
  shows "main running stopping = Panics ''close of closed channel''"
proof -
  from assms(3) obtain t where t: "step Call_Stop s1 = Returns t"
    and r: "run (stopping @ [Stop_returns]) t = Returns s2"
    by (auto simp: and_then_def split: result.splits)
  from t have "quit t" by (rule Call_Stop_closes)
  with r have "quit s2" by (blast intro: run_quit)
  then have "quit (cancel_ctx s2 0)"
    by (simp add: cancel_ctx_def)
  then have "step Call_Stop (cancel_ctx s2 0) = Panics ''close of closed channel''"
    by (rule Call_Stop_closed)
  moreover have "run [Cancel_ctx 0] s2 = Returns (cancel_ctx s2 0)"
    by (simp add: and_then_def)
  ultimately show ?thesis
    using assms unfolding main_def by (simp add: and_then_def del: run.simps step.simps)
qed

lemma main_no_return: "main running stopping \<noteq> Returns s"
proof
  assume m: "main running stopping = Returns s"
  then obtain s0 s1 s2 where "NewScheduler 5 50 = Returns s0"
    and "run (Call_Start # running) s0 = Returns s1"
    and "run (Call_Stop # stopping @ [Stop_returns]) s1 = Returns s2"
    unfolding main_def by (auto simp: and_then_def simp del: run.simps step.simps split: result.splits)
  then have "main running stopping = Panics ''close of closed channel''"
    by (rule main_after_Stop)
  with m show False by simp
qed


lemma first_parked_update:
  "i < length gs \<Longrightarrow> \<not> worker_parked (gs ! i) \<Longrightarrow> \<not> worker_parked g \<Longrightarrow>
     first_parked (gs[i := g]) = first_parked gs"
proof (induction gs arbitrary: i)
  case Nil
  then show ?case by simp
next
  case (Cons x xs)
  then show ?case by (cases i) auto
qed

lemma SubmitTask_update:
  assumes "i < length (goroutines s)" and "\<not> worker_parked (goroutines s ! i)"
    and "\<not> worker_parked g"
  shows "SubmitTask (s\<lparr>goroutines := (goroutines s)[i := g]\<rparr>) t =
           (SubmitTask s t)\<lparr>goroutines := (goroutines (SubmitTask s t))[i := g]\<rparr>"
proof (cases "first_parked (goroutines s)")
  case None
  with assms show ?thesis
    by (simp add: SubmitTask_cases first_parked_update)
next
  case (Some j)
  then have "goroutines s ! j = W_parked" by (simp add: first_parked_Some)
  with assms(2) have "i \<noteq> j" by auto
  with Some assms show ?thesis
    by (simp add: SubmitTask_cases first_parked_update list_update_swap)
qed

lemma delay_cancelled:
  assumes "i < length (goroutines s)" and "goroutines s ! i = D_select task c False"
    and "ctx_Done s c"
  shows "run [Go i ch, Go i ch'] s =
           Returns (s\<lparr>goroutines := (goroutines s)[i := D_exited True]\<rparr>)"
  using assms by (simp add: and_then_def go_defs go_select2)

lemma delay_fired:
  assumes "i < length (goroutines s)" and "goroutines s ! i = D_select task c True"
    and "\<not> ctx_Done s c"
  shows "run [Go i ch, Go i ch'] s =
           Returns ((SubmitTask s task)
                      \<lparr>goroutines := (goroutines (SubmitTask s task))[i := D_exited False]\<rparr>)"
  using assms by (simp add: and_then_def go_defs go_select2 SubmitTask_update Let_def)

lemma delay_both:
  assumes "i < length (goroutines s)" and "goroutines s ! i = D_select task c True"
    and "ctx_Done s c"
  shows "run [Go i ch, Go i ch'] s =
           Returns (if even ch
                    then (SubmitTask s task)
                      \<lparr>goroutines := (goroutines (SubmitTask s task))[i := D_exited False]\<rparr>
                    else s\<lparr>goroutines := (goroutines s)[i := D_exited True]\<rparr>)"
  using assms by (simp add: and_then_def go_defs go_select2 SubmitTask_update Let_def)

lemma delay_parked_cancel:
  assumes "i < length (goroutines s)" and "goroutines s ! i = D_select task (Ctx n) False"
    and "\<not> ctx_Done s (Ctx n)"
  shows "run [Go i ch, Cancel_ctx n, Go i ch'] s =
           Returns ((cancel_ctx s n)
                      \<lparr>goroutines := (goroutines (cancel_ctx s n))[i := D_exited True]\<rparr>)"
  using assms by (simp add: and_then_def go_defs go_select2 cancel_ctx_def map_update)

lemma delay_parked_fire:
  assumes "i < length (goroutines s)" and "goroutines s ! i = D_select task c False"
    and "\<not> ctx_Done s c"
  shows "run [Go i ch, Timer_fires i, Go i ch'] s =
           Returns ((SubmitTask s task)
                      \<lparr>goroutines := (goroutines (SubmitTask s task))[i := D_exited False]\<rparr>)"
  using assms
  by (simp add: and_then_def go_defs go_select2 timer_fires_def SubmitTask_update Let_def)

lemma delay_exited:
  assumes "goroutines s ! i = D_exited b"
  shows "step (Go i ch) s = Blocks \<and> step (Timer_fires i) s = Blocks"
  using assms by (simp add: go_def timer_fires_def)










lemma Execute_done_no_retry:
  assumes "i < length (goroutines s)" and "goroutines s ! i = W_execute task"
  shows "step (Execute_done i err) s =
           Returns (s\<lparr>executed := executed s @ [(task, err)],
                      goroutines := (goroutines s)[i := W_select]\<rparr>)"
  using assms by (simp add: Execute_returns_def worker_after_Execute_def Let_def)

lemma retry_loop_past:
  "k < int a \<Longrightarrow> retry_loop api d b c k a w e = (a, w, e)"
  by (subst retry_loop.simps) (simp del: retry_loop.simps)

lemma retry_loop_always_fails:
  assumes "\<forall>n. api n \<noteq> None" and "int a \<le> k"
  shows "retry_loop api (\<lambda>n. False) (\<lambda>n. False) c k a w e =
           (nat k + 1, w @ [a..<nat k], api (nat k))"
  using assms(2)
proof (induction "nat k - a" arbitrary: a w e)
  case 0
  then have a: "int a = k" by simp
  obtain x where x: "api a = Some x"
    using assms(1) [rule_format, of a] by (cases "api a") auto
  from a have "nat k = a" by simp
  moreover from a have "k < int (Suc a)" by simp
  ultimately show ?case
    using a x by (subst retry_loop.simps) (simp add: retry_loop_past del: retry_loop.simps)
next
  case (Suc m)
  then have lt: "int a < k" by simp
  obtain x where x: "api a = Some x"
    using assms(1) [rule_format, of a] by (cases "api a") auto
  from Suc have "m = nat k - Suc a" "int (Suc a) \<le> k" by simp_all
  then have "retry_loop api (\<lambda>n. False) (\<lambda>n. False) c k (Suc a) (w @ [a]) (Some x) =
           (nat k + 1, (w @ [a]) @ [Suc a..<nat k], api (nat k))"
    by (rule Suc.hyps(1))
  moreover from lt have "[a..<nat k] = a # [Suc a..<nat k]"
    by (simp add: upt_conv_Cons)
  ultimately show ?case
    using lt x by (subst retry_loop.simps) (simp del: retry_loop.simps)
qed

text \<open>
  \<open>GetFundingStatsTask.Execute\<close> retries by itself: with requests that always fail, a
  context that is never done and \<open>MaxRetries = k \<ge> 0\<close> it makes \<open>k + 1\<close> requests, waits
  after each but the last, and returns the error of the last.
\<close>

lemma GetFundingStatsTask_Execute_retries:
  assumes "\<forall>n. api n \<noteq> None" and "0 \<le> MaxRetries (RetryPolicy t)"
  shows "GetFundingStatsTask_Execute t api (\<lambda>n. False) (\<lambda>n. False) c =
           (nat (MaxRetries (RetryPolicy t)) + 1, [0..<nat (MaxRetries (RetryPolicy t))],
            api (nat (MaxRetries (RetryPolicy t))))"
  using assms retry_loop_always_fails [of api 0 "MaxRetries (RetryPolicy t)" c "[]" None]
  by (simp add: GetFundingStatsTask_Execute_def del: retry_loop.simps)

text \<open>
  Calls of \<open>Execute\<close> and \<open>ShouldRun\<close> made by several goroutines: the bodies, run
  statement by statement, are the two methods; every statement keeps the mutex with the
  goroutine that is between its \<open>Lock\<close> and its \<open>Unlock\<close>; and from every state that
  the calls reach some goroutine can take its next statement, until all have returned.
\<close>

lemma held_by_append:
  "held_by h (l @ m) = (case held_by h l of None \<Rightarrow> None | Some h' \<Rightarrow> held_by h' m)"
  by (induction h l rule: held_by.induct) auto

lemma Execute_stmts_run:
  "Execute p now c =
     and_then (pstmts_run (Execute_stmts now) (p, [])) (\<lambda>r. case r of (p', tr) \<Rightarrow>
       Returns (p', tr, runFunc p' c))"
  by (simp add: p_defs Execute_stmts_def split: result.splits)

lemma ShouldRun_stmts_run:
  "ShouldRun p now =
     and_then (pstmts_run ShouldRun_stmts (p, [])) (\<lambda>r. case r of (p', tr) \<Rightarrow>
       Returns (p', tr, interval p \<le> time_Since now (lastRun p)))"
  by (simp add: p_defs ShouldRun_stmts_def split: result.splits)

lemma in_call_Lock: "in_call (St_Lock # rest) \<Longrightarrow> in_section rest \<and> in_call rest"
  by (cases rest rule: after_Lock.cases) auto

lemma in_call_set: "in_call (St_set_lastRun t # rest) \<Longrightarrow> in_section rest \<and> in_call rest"
  by simp

lemma in_call_get: "in_call (St_get_lastRun # rest) \<Longrightarrow> in_section rest \<and> in_call rest"
  by simp

lemma in_call_Unlock: "in_call (St_Unlock # rest) \<Longrightarrow> \<not> in_section rest \<and> in_call rest"
  by auto

lemma in_call_runFunc: "in_call (St_runFunc # rest) \<Longrightarrow> \<not> in_section rest \<and> in_call rest"
  by simp

lemma in_call_stmts_of: "in_call (stmts_of c) \<and> \<not> in_section (stmts_of c)"
  by (cases c) (simp_all add: Execute_stmts_def ShouldRun_stmts_def)

lemma pcall_step_inv:
  assumes "pcalls_inv x h" and "pcall_step k x = Returns x'"
  shows "\<exists>h'. pcalls_inv x' h'"
proof -
  obtain ths p log where x: "x = (ths, p, log)" by (cases x) auto
  from assms(2) x have k: "k < length ths"
    by (auto simp: pcall_step_def split: if_splits)
  from assms(2) x k obtain st rest where b: "ths ! k = st # rest"
    by (cases "ths ! k") (auto simp: pcall_step_def)
  from assms(1) x k have w: "in_call (ths ! k)"
    by (simp add: pcalls_inv_def)
  from assms(1) x have hl: "held_by None log = Some h"
    and sec: "\<And>j. j < length ths \<Longrightarrow> in_section (ths ! j) = (h = Some j)"
    and m: "mu p = (h \<noteq> None)"
    and all: "\<And>j. j < length ths \<Longrightarrow> in_call (ths ! j)"
    and bound: "\<And>j. h = Some j \<Longrightarrow> j < length ths"
    by (simp_all add: pcalls_inv_def)
  show ?thesis
  proof (cases st)
    case St_Lock
    from St_Lock b assms(2) x k have free: "\<not> mu p"
      by (auto simp: pcall_step_def p_Lock_def mutex_Lock_def and_then_def split: if_splits)
    with m have h: "h = None" by simp
    from St_Lock b w have r: "in_section rest" "in_call rest"
      using in_call_Lock by auto
    from St_Lock b assms(2) x k free
    have x': "x' = (ths[k := rest], p\<lparr>mu := True\<rparr>, log @ [(k, Lock)])"
      by (simp add: pcall_step_def p_Lock_def mutex_Lock_def and_then_def)
    have "pcalls_inv x' (Some k)"
      unfolding x' pcalls_inv_def
      using k r h hl sec all
      by (auto simp: held_by_append nth_list_update)
    then show ?thesis ..
  next
    case (St_set_lastRun t)
    with b sec [OF k] have h: "h = Some k" by auto
    from St_set_lastRun b w have r: "in_section rest" "in_call rest"
      using in_call_set by auto
    from St_set_lastRun b assms(2) x k
    have x': "x' = (ths[k := rest], p\<lparr>lastRun := t\<rparr>, log @ [(k, Write ''lastRun'')])"
      by (simp add: pcall_step_def p_set_lastRun_def and_then_def)
    have "pcalls_inv x' (Some k)"
      unfolding x' pcalls_inv_def
      using k r h hl sec all m
      by (auto simp: held_by_append nth_list_update)
    then show ?thesis ..
  next
    case St_get_lastRun
    with b sec [OF k] have h: "h = Some k" by auto
    from St_get_lastRun b w have r: "in_section rest" "in_call rest"
      using in_call_get by auto
    from St_get_lastRun b assms(2) x k
    have x': "x' = (ths[k := rest], p, log @ [(k, Read ''lastRun'')])"
      by (simp add: pcall_step_def p_get_lastRun_def and_then_def)
    have "pcalls_inv x' (Some k)"
      unfolding x' pcalls_inv_def
      using k r h hl sec all m
      by (auto simp: held_by_append nth_list_update)
    then show ?thesis ..
  next
    case St_Unlock
    with b sec [OF k] have h: "h = Some k" by auto
    with m have held: "mu p" by simp
    from St_Unlock b w have r: "\<not> in_section rest" "in_call rest"
      using in_call_Unlock by auto
    from St_Unlock b assms(2) x k held
    have x': "x' = (ths[k := rest], p\<lparr>mu := False\<rparr>, log @ [(k, Unlock)])"
      by (simp add: pcall_step_def p_Unlock_def mutex_Unlock_def and_then_def)
    have "pcalls_inv x' None"
      unfolding x' pcalls_inv_def
      using k r h hl sec all
      by (auto simp: held_by_append nth_list_update)
    then show ?thesis ..
  next
    case St_runFunc
    with b sec [OF k] have hk: "h \<noteq> Some k" by auto
    from St_runFunc b w have r: "\<not> in_section rest" "in_call rest"
      using in_call_runFunc by auto
    from St_runFunc b assms(2) x k
    have x': "x' = (ths[k := rest], p, log @ [(k, Call ''runFunc'')])"
      by (simp add: pcall_step_def and_then_def)
    have "pcalls_inv x' h"
      unfolding x' pcalls_inv_def
      using k r hk hl sec all m bound
      by (auto simp: held_by_append nth_list_update split: option.splits)
    then show ?thesis ..
  qed
qed

lemma interleave_inv:
  "pcalls_inv x h \<Longrightarrow> interleave ks x = Returns x' \<Longrightarrow> \<exists>h'. pcalls_inv x' h'"
proof (induction ks arbitrary: x h)
  case Nil
  then show ?case by auto
next
  case (Cons k ks)
  from Cons.prems(2) obtain y where y: "pcall_step k x = Returns y"
    and r: "interleave ks y = Returns x'"
    by (auto simp: and_then_def split: result.splits)
  from pcall_step_inv [OF Cons.prems(1) y] obtain h' where "pcalls_inv y h'" ..
  from Cons.IH [OF this r] show ?case .
qed

lemma pcalls_inv_start:
  assumes "\<not> mu p"
  shows "pcalls_inv (map stmts_of cs, p, []) None"
  using assms in_call_stmts_of by (simp add: pcalls_inv_def)

lemma pcall_step_remaining:
  assumes "pcall_step k x = Returns x'"
  shows "remaining x' < remaining x \<and> length (fst x') = length (fst x)"
proof -
  obtain ths p log where x: "x = (ths, p, log)" by (cases x) auto
  from assms x have k: "k < length ths"
    by (auto simp: pcall_step_def split: if_splits)
  from assms x k obtain st rest where b: "ths ! k = st # rest"
    by (cases "ths ! k") (auto simp: pcall_step_def)
  from assms x k b have f: "fst x' = ths[k := rest]"
    by (auto simp: pcall_step_def and_then_def split: result.splits)
  have "sum_list ((map length ths)[k := length rest]) =
          sum_list (map length ths) + length rest - (map length ths) ! k"
    using k by (simp add: sum_list_update)
  moreover have "(map length ths) ! k \<le> sum_list (map length ths)"
    using k by (simp add: member_le_sum_list)
  ultimately show ?thesis
    using k b f x by (simp add: remaining_def map_update)
qed

lemma pcall_step_progress:
  assumes "pcalls_inv x h" and "j < length (fst x)" and "fst x ! j \<noteq> []"
  shows "\<exists>k x'. pcall_step k x = Returns x'"
proof -
  obtain ths p log where x: "x = (ths, p, log)" by (cases x) auto
  from assms(1) x have sec: "\<And>j. j < length ths \<Longrightarrow> in_section (ths ! j) = (h = Some j)"
    and m: "mu p = (h \<noteq> None)"
    and all: "\<And>j. j < length ths \<Longrightarrow> in_call (ths ! j)"
    and bound: "\<And>j. h = Some j \<Longrightarrow> j < length ths"
    by (simp_all add: pcalls_inv_def)
  show ?thesis
  proof (cases h)
    case None
    from assms(2,3) x obtain st rest where b: "ths ! j = st # rest"
      by (cases "ths ! j") auto
    from None sec assms(2) x have "\<not> in_section (ths ! j)" by simp
    with b have "st = St_Lock \<or> st = St_runFunc" by (cases st) auto
    with None m b assms(2) x have "\<exists>x'. pcall_step j x = Returns x'"
      by (auto simp: pcall_step_def p_Lock_def mutex_Lock_def and_then_def)
    then show ?thesis ..
  next
    case (Some k)
    with bound have k: "k < length ths" by simp
    with sec Some have "in_section (ths ! k)" by simp
    then obtain st rest where b: "ths ! k = st # rest"
      and st: "st \<noteq> St_Lock"
      by (cases "ths ! k" rule: in_section.cases) auto
    from Some m have "mu p" by simp
    with b st k x have "\<exists>x'. pcall_step k x = Returns x'"
      by (cases st)
         (auto simp: pcall_step_def p_Unlock_def mutex_Unlock_def p_set_lastRun_def
            p_get_lastRun_def and_then_def)
    then show ?thesis ..
  qed
qed

lemma pcalls_complete:
  "pcalls_inv x h \<Longrightarrow>
     \<exists>ks p' log'. interleave ks x = Returns (replicate (length (fst x)) [], p', log')
        \<and> exclusive log' \<and> \<not> mu p'"
proof (induction "remaining x" arbitrary: x h rule: less_induct)
  case less
  obtain ths p log where x: "x = (ths, p, log)" by (cases x) auto
  show ?case
  proof (cases "\<exists>j < length ths. ths ! j \<noteq> []")
    case False
    have e: "replicate (length ths) [] = ths"
    proof (rule nth_equalityI)
      show "length (replicate (length ths) []) = length ths" by simp
    next
      fix i
      assume "i < length (replicate (length ths) [])"
      with False show "replicate (length ths) [] ! i = ths ! i" by simp
    qed
    from False less.prems x have "h = None"
      by (cases h) (auto simp: pcalls_inv_def)
    with less.prems x have "exclusive log \<and> \<not> mu p"
      by (simp add: pcalls_inv_def exclusive_def)
    with e x have "interleave [] x = Returns (replicate (length (fst x)) [], p, log)
        \<and> exclusive log \<and> \<not> mu p"
      by simp
    then show ?thesis by blast
  next
    case True
    then obtain j where "j < length (fst x)" "fst x ! j \<noteq> []"
      using x by auto
    from pcall_step_progress [OF less.prems this]
    obtain k y where y: "pcall_step k x = Returns y" by blast
    from pcall_step_inv [OF less.prems y] obtain h' where i: "pcalls_inv y h'" ..
    from pcall_step_remaining [OF y]
    have r: "remaining y < remaining x" and l: "length (fst y) = length (fst x)" by simp_all
    from less.hyps [OF r i] l obtain ks p' log'
      where "interleave ks y = Returns (replicate (length (fst x)) [], p', log')"
        and "exclusive log'" and "\<not> mu p'"
      by auto
    with y have "interleave (k # ks) x = Returns (replicate (length (fst x)) [], p', log')
        \<and> exclusive log' \<and> \<not> mu p'"
      by (simp add: and_then_def)
    then show ?thesis by blast
  qed
qed

lemma interleave_length:
  "interleave ks x = Returns x' \<Longrightarrow> length (fst x') = length (fst x)"
proof (induction ks arbitrary: x)
  case Nil
  then show ?case by auto
next
  case (Cons k ks)
  from Cons.prems obtain y where y: "pcall_step k x = Returns y"
    and r: "interleave ks y = Returns x'"
    by (auto simp: and_then_def split: result.splits)
  from Cons.IH [OF r] pcall_step_remaining [OF y] show ?case by simp
qed

lemma interleave_append:
  "interleave (ks @ ks') x = and_then (interleave ks x) (interleave ks')"
  by (induction ks arbitrary: x) (auto simp: and_then_def split: result.splits)

section \<open>Construction\<close>

text \<open>
  Claim C4, as the code has it. \<open>NewScheduler\<close> checks nothing itself and has no error
  result. For every worker count, also zero or negative, and every queue size from zero up
  to the limit of \<open>make\<close>, it returns a scheduler with these two fields, an empty queue, no
  goroutine and an open quit channel; \<open>Start\<close> on it spawns as many workers as the count
  says, none for a count of zero or less. A queue size that is negative or above the limit
  fails, by the panic of \<open>make\<close>.
\<close>

theorem NewScheduler_no_validation:
  "(sint q < 0 \<or> maxAlloc - hchanSize < Task_size * sint q \<longrightarrow>
      NewScheduler w q = Panics ''makechan: size out of range'')
 \<and> (0 \<le> sint q \<and> Task_size * sint q \<le> maxAlloc - hchanSize \<longrightarrow>
      (\<exists>s. NewScheduler w q = Returns s
        \<and> workers s = sint w \<and> queueSize s = sint q \<and> taskQueue s = [] \<and> goroutines s = []
        \<and> wg s = 0 \<and> \<not> quit s
        \<and> goroutines (Start s) = replicate (nat (sint w)) W_select))"
  by (auto simp: NewScheduler_def makechan_fits_def Start_eq)

theorem NewScheduler_no_validation_witness:
  "sint (- 1 :: 64 word) < 0
 \<and> NewScheduler 5 (- 1) = Panics ''makechan: size out of range''
 \<and> maxAlloc - hchanSize < Task_size * sint (2 ^ 62 :: 64 word)
 \<and> NewScheduler 5 (2 ^ 62) = Panics ''makechan: size out of range''
 \<and> 0 \<le> sint (0 :: 64 word) \<and> Task_size * sint (0 :: 64 word) \<le> maxAlloc - hchanSize
 \<and> (\<exists>s. NewScheduler (- 2) 0 = Returns s
        \<and> workers s = - 2 \<and> queueSize s = 0 \<and> taskQueue s = [] \<and> goroutines s = []
        \<and> wg s = 0 \<and> \<not> quit s
        \<and> goroutines (Start s) = [])"
proof -
  have a: "sint (- 1 :: 64 word) < 0"
    by simp
  have b: "maxAlloc - hchanSize < Task_size * sint (2 ^ 62 :: 64 word)"
    by (simp add: maxAlloc_def hchanSize_def Task_size_def)
  have c: "0 \<le> sint (0 :: 64 word) \<and> Task_size * sint (0 :: 64 word) \<le> maxAlloc - hchanSize"
    by (simp add: maxAlloc_def hchanSize_def)
  from NewScheduler_no_validation [of "- 1" 5] a
  have 1: "NewScheduler 5 (- 1) = Panics ''makechan: size out of range''"
    by blast
  from NewScheduler_no_validation [of "2 ^ 62" 5] b
  have 2: "NewScheduler 5 (2 ^ 62) = Panics ''makechan: size out of range''"
    by blast
  from NewScheduler_no_validation [of 0 "- 2"] c
  have 3: "\<exists>s. NewScheduler (- 2) 0 = Returns s
        \<and> workers s = sint (- 2 :: 64 word) \<and> queueSize s = sint (0 :: 64 word)
        \<and> taskQueue s = [] \<and> goroutines s = []
        \<and> wg s = 0 \<and> \<not> quit s
        \<and> goroutines (Start s) = replicate (nat (sint (- 2 :: 64 word))) W_select"
    by blast
  from a b c 1 2 3 show ?thesis
    by simp
qed

text \<open>
  Claim C4 as stated fails: with a worker count of zero and a queue capacity of zero the
  construction succeeds.
\<close>

theorem NewScheduler_zero_accepted:
  "NewScheduler 0 0 =
     Returns \<lparr>workers = 0, queueSize = 0, taskQueue = [], periodicTask = (\<lambda>n. None),
               s_mu = False, wg = 0, quit = False, goroutines = [], cancelled = {},
               executed = []\<rparr>"
  by (simp add: NewScheduler_defs)

section \<open>Submission\<close>

text \<open>
  Claim C2, as the code has it. \<open>SubmitTask\<close> never blocks and returns nothing. A worker
  parked in its receive takes the task directly; otherwise, with fewer tasks buffered than
  the queue size, the task is appended to the queue; otherwise the task is dropped and
  nothing changes. \<open>Schedule\<close> does the same and returns \<open>nil\<close> in every case. With a queue
  size of one, an empty queue and no worker parked, two submissions in a row leave the
  first task in the queue and drop the second.
\<close>

theorem SubmitTask_drops_unreported:
  "Schedule s c task = (SubmitTask s task, None)
 \<and> (first_parked (goroutines s) = Some i \<longrightarrow>
      SubmitTask s task = s\<lparr>goroutines := (goroutines s)[i := W_execute task]\<rparr>)
 \<and> (first_parked (goroutines s) = None \<and> int (length (taskQueue s)) < queueSize s \<longrightarrow>
      SubmitTask s task = s\<lparr>taskQueue := taskQueue s @ [task]\<rparr>)
 \<and> (first_parked (goroutines s) = None \<and> queueSize s \<le> int (length (taskQueue s)) \<longrightarrow>
      SubmitTask s task = s)
 \<and> (first_parked (goroutines s) = None \<and> queueSize s = 1 \<and> taskQueue s = [] \<longrightarrow>
      SubmitTask (SubmitTask s task) task' = s\<lparr>taskQueue := [task]\<rparr>)"
  by (simp add: SubmitTask_cases Schedule_def)

theorem SubmitTask_drops_unreported_witness:
  "(\<exists>s0. NewScheduler 1 1 = Returns s0
      \<and> first_parked (goroutines s0) = None \<and> queueSize s0 = 1 \<and> taskQueue s0 = []
      \<and> SubmitTask s0 fundingTicker_fUSD = s0\<lparr>taskQueue := [fundingTicker_fUSD]\<rparr>
      \<and> SubmitTask (SubmitTask s0 fundingTicker_fUSD) fundingTicker_fUST
          = s0\<lparr>taskQueue := [fundingTicker_fUSD]\<rparr>
      \<and> queueSize (s0\<lparr>taskQueue := [fundingTicker_fUSD]\<rparr>)
          \<le> int (length (taskQueue (s0\<lparr>taskQueue := [fundingTicker_fUSD]\<rparr>)))
      \<and> SubmitTask (s0\<lparr>taskQueue := [fundingTicker_fUSD]\<rparr>) fundingTicker_fUST
          = s0\<lparr>taskQueue := [fundingTicker_fUSD]\<rparr>
      \<and> first_parked (goroutines (s0\<lparr>goroutines := [W_parked]\<rparr>)) = Some 0
      \<and> SubmitTask (s0\<lparr>goroutines := [W_parked]\<rparr>) fundingTicker_fUSD
          = s0\<lparr>goroutines := [W_execute fundingTicker_fUSD]\<rparr>)"
proof -
  obtain s0 where s0: "NewScheduler 1 1 = Returns s0"
    by (simp add: NewScheduler_defs)
  then have f: "goroutines s0 = []" "queueSize s0 = 1" "taskQueue s0 = []"
    by (auto simp: NewScheduler_defs)
  note t = SubmitTask_drops_unreported [of s0 Background fundingTicker_fUSD 0 fundingTicker_fUST]
  note u = SubmitTask_drops_unreported
        [of "s0\<lparr>goroutines := [W_parked]\<rparr>" Background fundingTicker_fUSD 0 fundingTicker_fUST]
  have h: "first_parked (goroutines s0) = None" "queueSize s0 = 1" "taskQueue s0 = []"
    "int (length (taskQueue s0)) < queueSize s0"
    using f by simp_all
  have h': "first_parked (goroutines (s0\<lparr>goroutines := [W_parked]\<rparr>)) = Some 0"
    by simp
  from t h have a: "SubmitTask s0 fundingTicker_fUSD = s0\<lparr>taskQueue := taskQueue s0 @ [fundingTicker_fUSD]\<rparr>"
    by blast
  from t h have b: "SubmitTask (SubmitTask s0 fundingTicker_fUSD) fundingTicker_fUST
          = s0\<lparr>taskQueue := [fundingTicker_fUSD]\<rparr>"
    by blast
  from u have c: "SubmitTask (s0\<lparr>goroutines := [W_parked]\<rparr>) fundingTicker_fUSD
          = s0\<lparr>goroutines := [W_execute fundingTicker_fUSD]\<rparr>"
    by simp
  note v = SubmitTask_drops_unreported
        [of "s0\<lparr>taskQueue := [fundingTicker_fUSD]\<rparr>" Background fundingTicker_fUST 0
           fundingTicker_fUST]
  from v f have d: "SubmitTask (s0\<lparr>taskQueue := [fundingTicker_fUSD]\<rparr>) fundingTicker_fUST
          = s0\<lparr>taskQueue := [fundingTicker_fUSD]\<rparr>"
    by simp
  show ?thesis
    apply (rule exI [of _ s0])
    apply (simp only: b c d)
    using s0 f a by simp
qed

text \<open>
  Claim C2 as stated fails: on a scheduler of queue size one, \<open>Schedule\<close> of a second task
  while the first is still queued drops the task and returns \<open>nil\<close>, which is what it
  returns for the first.
\<close>

theorem Schedule_full_returns_nil:
  "(case NewScheduler 1 1 of
      Returns s0 \<Rightarrow>
        Schedule s0 Background fundingTicker_fUSD
          = (s0\<lparr>taskQueue := [fundingTicker_fUSD]\<rparr>, None)
      \<and> Schedule (s0\<lparr>taskQueue := [fundingTicker_fUSD]\<rparr>) Background fundingTicker_fUST
          = (s0\<lparr>taskQueue := [fundingTicker_fUSD]\<rparr>, None)
    | Blocks \<Rightarrow> False
    | Panics m \<Rightarrow> False)"
  by (simp add: NewScheduler_defs Schedule_def SubmitTask_cases)

section \<open>Periodic tasks\<close>

text \<open>
  Claim C7. For a periodic task whose mutex is free and whose interval is a \<open>Duration\<close>,
  and a clock reading \<open>now\<close> that is not \<open>2^63\<close> nanoseconds or more before \<open>lastRun\<close> (no
  reading is before it: \<open>lastRun\<close> is an earlier reading of the same clock): \<open>ShouldRun\<close>
  returns true exactly when \<open>now - lastRun \<ge> interval\<close> and leaves the task as it was;
  \<open>Execute\<close> sets \<open>lastRun\<close> to \<open>now\<close> before it calls \<open>runFunc\<close>, whatever \<open>runFunc\<close>
  returns; and in both methods the access to \<open>lastRun\<close> lies between \<open>Lock\<close> and \<open>Unlock\<close>.
  A call of either method that finds the mutex held waits. The two methods are their
  bodies run statement by statement; and when goroutines make any calls of the two
  methods on one task whose mutex is free, their statements interleaved in any order,
  then wherever the calls have come to, every read and write of \<open>lastRun\<close> so far was made
  by a goroutine that held the mutex while no other goroutine held it, and the calls can
  go on until all of them have returned, with the same exclusion and the mutex free at
  the end.
\<close>

theorem periodic_lastRun:
  assumes "\<not> mu p" and "is_Duration (interval p)" and "minDuration \<le> now - lastRun p"
  shows "ShouldRun p now =
           Returns (p, [Lock, Read ''lastRun'', Unlock], interval p \<le> now - lastRun p)
       \<and> guarded ''lastRun'' False [Lock, Read ''lastRun'', Unlock]
       \<and> Execute p now c =
           Returns (p\<lparr>lastRun := now\<rparr>,
                    [Lock, Write ''lastRun'', Unlock, Call ''runFunc''], runFunc p c)
       \<and> guarded ''lastRun'' False [Lock, Write ''lastRun'', Unlock, Call ''runFunc'']
       \<and> (mu q \<longrightarrow> ShouldRun q t = Blocks \<and> Execute q t c' = Blocks)
       \<and> ShouldRun q t =
           and_then (pstmts_run ShouldRun_stmts (q, [])) (\<lambda>r. case r of (q', tr) \<Rightarrow>
             Returns (q', tr, interval q \<le> time_Since t (lastRun q)))
       \<and> Execute q t c' =
           and_then (pstmts_run (Execute_stmts t) (q, [])) (\<lambda>r. case r of (q', tr) \<Rightarrow>
             Returns (q', tr, runFunc q' c'))
       \<and> (interleave ks (map stmts_of cs, p, []) = Returns (ths, p', log) \<longrightarrow>
            exclusive log
          \<and> (\<exists>ks' p'' log'.
                interleave (ks @ ks') (map stmts_of cs, p, []) =
                  Returns (replicate (length cs) [], p'', log')
              \<and> exclusive log' \<and> \<not> mu p''))"
proof -
  have 1: "ShouldRun p now =
           Returns (p, [Lock, Read ''lastRun'', Unlock], interval p \<le> now - lastRun p)
       \<and> guarded ''lastRun'' False [Lock, Read ''lastRun'', Unlock]
       \<and> Execute p now c =
           Returns (p\<lparr>lastRun := now\<rparr>,
                    [Lock, Write ''lastRun'', Unlock, Call ''runFunc''], runFunc p c)
       \<and> guarded ''lastRun'' False [Lock, Write ''lastRun'', Unlock, Call ''runFunc'']"
    using assms by (simp add: p_defs time_Since_past)
  have 2: "mu q \<longrightarrow> ShouldRun q t = Blocks \<and> Execute q t c' = Blocks"
    by (simp add: p_defs)
  have 3: "exclusive log
          \<and> (\<exists>ks' p'' log'.
                interleave (ks @ ks') (map stmts_of cs, p, []) =
                  Returns (replicate (length cs) [], p'', log')
              \<and> exclusive log' \<and> \<not> mu p'')"
    if r: "interleave ks (map stmts_of cs, p, []) = Returns (ths, p', log)"
  proof -
    from interleave_inv [OF pcalls_inv_start [OF assms(1)] r]
    obtain h where i: "pcalls_inv (ths, p', log) h" ..
    then have e: "exclusive log"
      by (simp add: pcalls_inv_def exclusive_def)
    from interleave_length [OF r] have l: "length ths = length cs" by simp
    from pcalls_complete [OF i] l obtain ks' p'' log'
      where "interleave ks' (ths, p', log) = Returns (replicate (length cs) [], p'', log')"
        and "exclusive log'" and "\<not> mu p''"
      by auto
    with r have "interleave (ks @ ks') (map stmts_of cs, p, []) =
                  Returns (replicate (length cs) [], p'', log')
              \<and> exclusive log' \<and> \<not> mu p''"
      by (simp add: interleave_append and_then_def)
    with e show ?thesis by blast
  qed
  from 1 2 3 Execute_stmts_run [of q t c'] ShouldRun_stmts_run [of q t]
  show ?thesis by blast
qed

theorem periodic_lastRun_witness:
  "\<not> mu (fundingBook_fUSD 1000)
 \<and> is_Duration (interval (fundingBook_fUSD 1000))
 \<and> minDuration \<le> 60000001000 - lastRun (fundingBook_fUSD 1000)
 \<and> ShouldRun (fundingBook_fUSD 1000) 60000001000 =
      Returns (fundingBook_fUSD 1000, [Lock, Read ''lastRun'', Unlock], True)
 \<and> Execute (fundingBook_fUSD 1000) 60000001000 Background =
      Returns (fundingBook_fUSD 60000001000,
               [Lock, Write ''lastRun'', Unlock, Call ''runFunc''], None)
 \<and> mu ((fundingBook_fUSD 1000)\<lparr>mu := True\<rparr>)
 \<and> ShouldRun ((fundingBook_fUSD 1000)\<lparr>mu := True\<rparr>) 60000001000 = Blocks
 \<and> Execute ((fundingBook_fUSD 1000)\<lparr>mu := True\<rparr>) 60000001000 Background = Blocks
 \<and> interleave [0, 0, 0, 1, 1, 0]
      (map stmts_of [Of_Execute 60000001000, Of_ShouldRun], fundingBook_fUSD 1000, []) =
      Returns ([[], [St_Unlock]], (fundingBook_fUSD 60000001000)\<lparr>mu := True\<rparr>,
               [(0, Lock), (0, Write ''lastRun''), (0, Unlock), (1, Lock),
                (1, Read ''lastRun''), (0, Call ''runFunc'')])
 \<and> exclusive [(0, Lock), (0, Write ''lastRun''), (0, Unlock), (1, Lock),
              (1, Read ''lastRun''), (0, Call ''runFunc'')]
 \<and> (\<exists>ks' p'' log'.
       interleave ([0, 0, 0, 1, 1, 0] @ ks')
         (map stmts_of [Of_Execute 60000001000, Of_ShouldRun], fundingBook_fUSD 1000, []) =
         Returns ([[], []], p'', log')
     \<and> exclusive log' \<and> \<not> mu p'')
 \<and> interleave [1, 1, 0]
      (map stmts_of [Of_Execute 60000001000, Of_ShouldRun], fundingBook_fUSD 1000, []) =
      Blocks"
proof -
  let ?task = "fundingBook_fUSD 1000"
  let ?held = "(fundingBook_fUSD 1000)\<lparr>mu := True\<rparr>"
  let ?calls = "[Of_Execute 60000001000, Of_ShouldRun]"
  let ?rest = "[[], [St_Unlock]]"
  let ?after = "(fundingBook_fUSD 60000001000)\<lparr>mu := True\<rparr>"
  let ?trace = "[(0, Lock), (0, Write ''lastRun''), (0, Unlock), (1, Lock),
                 (1, Read ''lastRun''), (0 :: nat, Call ''runFunc'')]"
  have a: "\<not> mu ?task" "is_Duration (interval ?task)"
      "minDuration \<le> 60000001000 - lastRun ?task"
    by (simp_all add: fundingBook_fUSD_def is_Duration_def minDuration_def maxDuration_def
          millisecond_def)
  have b: "mu ?held"
    by simp
  have r: "interleave [0, 0, 0, 1, 1, 0] (map stmts_of ?calls, ?task, []) =
             Returns (?rest, ?after, ?trace)"
    by (simp add: pcall_step_def p_defs Execute_stmts_def ShouldRun_stmts_def
          fundingBook_fUSD_def)
  have w: "interleave [1, 1, 0] (map stmts_of ?calls, ?task, []) = Blocks"
    by (simp add: pcall_step_def p_defs Execute_stmts_def ShouldRun_stmts_def
          fundingBook_fUSD_def)
  have v: "interval ?task \<le> 60000001000 - lastRun ?task"
      "?task\<lparr>lastRun := 60000001000\<rparr> = fundingBook_fUSD 60000001000"
      "runFunc ?task Background = None"
    by (simp_all add: fundingBook_fUSD_def millisecond_def)
  note T = periodic_lastRun [where p = ?task and now = 60000001000 and c = Background
      and q = ?held and t = 60000001000 and c' = Background
      and ks = "[0, 0, 0, 1, 1, 0]" and cs = ?calls and ths = ?rest and p' = ?after
      and log = ?trace, OF a]
  from T v have 1: "ShouldRun ?task 60000001000 =
      Returns (?task, [Lock, Read ''lastRun'', Unlock], True)"
    by simp
  from T v have 2: "Execute ?task 60000001000 Background =
      Returns (fundingBook_fUSD 60000001000,
               [Lock, Write ''lastRun'', Unlock, Call ''runFunc''], None)"
    by simp
  from T b have 3: "ShouldRun ?held 60000001000 = Blocks"
      "Execute ?held 60000001000 Background = Blocks"
    by blast+
  from T r have 4: "exclusive ?trace" by blast
  from T r have 5: "\<exists>ks' p'' log'.
       interleave ([0, 0, 0, 1, 1, 0] @ ks') (map stmts_of ?calls, ?task, []) =
         Returns (replicate (length ?calls) [], p'', log')
     \<and> exclusive log' \<and> \<not> mu p''"
    by blast
  have 6: "replicate (length ?calls) [] = [[], [] :: pstmt list]"
    by (simp add: eval_nat_numeral)
  from a b 1 2 3 4 5 [unfolded 6] r w show ?thesis
    by blast
qed

section \<open>Stopping\<close>

text \<open>
  Claim C5, as the code has it. In every state that a run from a new scheduler reaches,
  the \<open>Wait\<close> of \<open>Stop()\<close> returns exactly when the quit channel is closed and no worker
  is left, be it at its \<open>select\<close>, parked, inside \<open>Execute\<close> or about to return; until
  then it blocks. It changes nothing, so the tasks still queued stay queued with no worker
  to take them. The goroutines of \<open>ScheduleWithDelay\<close> and \<open>ScheduleRecurring\<close> are not
  in the wait group, and \<open>Stop()\<close> does not wait for them.
\<close>

theorem Stop_joins_workers:
  assumes "NewScheduler w q = Returns s0" and "run as s0 = Returns s"
  shows "step Stop_returns s =
           (if quit s \<and> (\<forall>g \<in> set (goroutines s). \<not> is_worker g) then Returns s
            else Blocks)"
proof -
  from assms have "wg_counts_workers s"
    by (blast intro: run_workers NewScheduler_workers)
  then have "(wg s = 0) = (\<forall>g \<in> set (goroutines s). \<not> is_worker g)"
    by (auto simp: wg_counts_workers_def live_workers_def filter_empty_conv)
  then show ?thesis
    by (simp add: wg_Wait_def)
qed

theorem Stop_joins_workers_witness:
  "\<exists>s0 s s'. NewScheduler 1 1 = Returns s0
     \<and> run [Call_Start, Call_SubmitTask fundingTicker_fUSD, Go 0 0, Call_Stop] s0 = Returns s
     \<and> goroutines s = [W_execute fundingTicker_fUSD] \<and> quit s
     \<and> step Stop_returns s = Blocks
     \<and> run [Execute_done 0 None, Go 0 0, Go 0 0] s = Returns s'
     \<and> goroutines s' = [W_exited] \<and> quit s'
     \<and> step Stop_returns s' = Returns s'"
proof -
  let ?init = "\<lparr>workers = 1, queueSize = 1, taskQueue = [], periodicTask = (\<lambda>n. None),
      s_mu = False, wg = 0, quit = False, goroutines = [], cancelled = {}, executed = []\<rparr>"
  let ?as = "[Call_Start, Call_SubmitTask fundingTicker_fUSD, Go 0 0, Call_Stop]"
  let ?mid = "\<lparr>workers = 1, queueSize = 1, taskQueue = [], periodicTask = (\<lambda>n. None),
      s_mu = False, wg = 1, quit = True, goroutines = [W_execute fundingTicker_fUSD],
      cancelled = {}, executed = []\<rparr>"
  let ?bs = "[Execute_done 0 None, Go 0 0, Go 0 0]"
  let ?fin = "\<lparr>workers = 1, queueSize = 1, taskQueue = [], periodicTask = (\<lambda>n. None),
      s_mu = False, wg = 0, quit = True, goroutines = [W_exited],
      cancelled = {}, executed = [(fundingTicker_fUSD, None)]\<rparr>"
  have n: "NewScheduler 1 1 = Returns ?init"
    by (simp add: NewScheduler_defs)
  have r: "run ?as ?init = Returns ?mid"
    by (simp add: eval_defs)
  have r': "run ?bs ?mid = Returns ?fin"
    by (simp add: eval_defs)
  have rr: "run (?as @ ?bs) ?init = Returns ?fin"
    by (simp add: eval_defs)
  from Stop_joins_workers [OF n r] have 1: "step Stop_returns ?mid = Blocks"
    by simp
  from Stop_joins_workers [OF n rr] have 2: "step Stop_returns ?fin = Returns ?fin"
    by simp
  from n r r' 1 2 show ?thesis
    by (intro exI [of _ ?init] exI [of _ ?mid] exI [of _ ?fin]) simp
qed

text \<open>
  Claim C5 as stated fails: with one worker and a delayed task scheduled, \<open>Stop()\<close> returns
  once the worker has returned, while the goroutine of \<open>ScheduleWithDelay\<close> is still parked
  in its \<open>select\<close>.
\<close>

theorem Stop_returns_with_live_timer:
  "(case NewScheduler 1 1 of
      Returns s0 \<Rightarrow>
        (case run [Call_Start, Call_ScheduleWithDelay (Ctx 0) fundingTicker_fUSD (100 * millisecond),
                   Go 1 0, Go 0 0, Call_Stop, Go 0 0, Stop_returns] s0 of
           Returns s \<Rightarrow> goroutines s = [W_exited, D_parked fundingTicker_fUSD (Ctx 0)]
                        \<and> alive (goroutines s ! 1)
         | Blocks \<Rightarrow> False
         | Panics m \<Rightarrow> False)
    | Blocks \<Rightarrow> False
    | Panics m \<Rightarrow> False)"
  by (simp add: eval_defs)

text \<open>
  Claim C10. \<open>Stop()\<close> on a scheduler whose quit channel is closed panics with
  \<open>close of closed channel\<close>; the channel is closed for good by the first \<open>Stop()\<close>,
  whatever happens afterwards, so a second \<open>Stop()\<close> on the same scheduler panics. \<open>main\<close>
  calls \<open>Stop()\<close> on shutdown and has deferred another: once the first has returned, the
  deferred one panics, and \<open>main\<close> never gets past it.
\<close>

theorem Stop_twice_panics:
  "(quit s \<longrightarrow> Stop s = Panics ''close of closed channel'')
 \<and> (step Call_Stop s = Returns s1 \<and> run as s1 = Returns s2 \<longrightarrow>
      Stop s2 = Panics ''close of closed channel'')
 \<and> (NewScheduler 5 50 = Returns s0 \<and> run (Call_Start # running) s0 = Returns s1'
      \<and> run (Call_Stop # stopping @ [Stop_returns]) s1' = Returns s2' \<longrightarrow>
      main running stopping = Panics ''close of closed channel'')
 \<and> main running stopping \<noteq> Returns s3"
  using main_no_return [of running stopping s3]
  by (blast intro: Stop_closed Call_Stop_closes run_quit main_after_Stop)

theorem Stop_twice_panics_witness:
  "\<exists>s0 s1 s2. NewScheduler 5 50 = Returns s0
     \<and> run (Call_Start # main_running) s0 = Returns s1
     \<and> run (Call_Stop # main_stopping @ [Stop_returns]) s1 = Returns s2
     \<and> goroutines s2 = [W_exited, W_exited, W_exited, W_exited, W_exited]
     \<and> quit s2
     \<and> Stop s2 = Panics ''close of closed channel''
     \<and> main main_running main_stopping = Panics ''close of closed channel''"
proof -
  let ?init = "\<lparr>workers = 5, queueSize = 50, taskQueue = [], periodicTask = (\<lambda>n. None),
      s_mu = False, wg = 0, quit = False, goroutines = [], cancelled = {}, executed = []\<rparr>"
  let ?up = "?init\<lparr>periodicTask :=
                 (\<lambda>n. None)(''FundingBook_fUSD'' := Some (fundingBook_fUSD 1000)),
               wg := 5,
               goroutines := [W_parked, W_parked, W_parked, W_parked, W_parked],
               executed := [(PeriodicT (fundingBook_fUSD 1000), None)]\<rparr>"
  let ?down = "?up\<lparr>wg := 0, quit := True,
                 goroutines := [W_exited, W_exited, W_exited, W_exited, W_exited]\<rparr>"
  have n: "NewScheduler 5 50 = Returns ?init"
    by (simp add: NewScheduler_defs)
  have rep: "replicate 5 W_select = [W_select, W_select, W_select, W_select, W_select]"
    by (simp add: eval_nat_numeral)
  have r: "run (Call_Start # main_running) ?init = Returns ?up"
    by (simp add: eval_defs main_running_def fundingBook_fUSD_def rep)
  have r': "run (Call_Stop # main_stopping @ [Stop_returns]) ?up = Returns ?down"
    by (simp add: eval_defs main_stopping_def)
  have c: "step Call_Stop ?up = Returns (?up\<lparr>quit := True,
             goroutines := [W_return, W_return, W_return, W_return, W_return]\<rparr>)"
    by (simp add: close_quit_def)
  have c': "run (main_stopping @ [Stop_returns])
              (?up\<lparr>quit := True,
                 goroutines := [W_return, W_return, W_return, W_return, W_return]\<rparr>)
            = Returns ?down"
    by (simp add: eval_defs main_stopping_def)
  note t = Stop_twice_panics [of ?up _ "main_stopping @ [Stop_returns]" ?down ?init
      main_running ?up main_stopping ?down]
  from t c c' have 1: "Stop ?down = Panics ''close of closed channel''"
    by blast
  have q: "quit ?down"
    by simp
  from Stop_twice_panics [of ?down] q
  have 3: "Stop ?down = Panics ''close of closed channel''"
    by blast
  from t n r r' have 2: "main main_running main_stopping = Panics ''close of closed channel''"
    by blast
  from n r r' 1 2 show ?thesis
    by (intro exI [of _ ?init] exI [of _ ?up] exI [of _ ?down]) simp
qed

section \<open>The periodic-task registry\<close>




text \<open>
  Claim C3, on the code: \<open>Cancel\<close> of a registered name returns \<open>nil\<close> and leaves the
  scheduler as it was. The handle stays in the registry, and the ticker that submits it
  goes on: the tick after \<open>Cancel\<close> has returned submits the task, and a worker executes it.
\<close>

theorem Cancel_does_nothing:
  "(case NewScheduler 1 1 of
      Returns s0 \<Rightarrow>
        (case run [Call_Start,
                   Call_NewPeriodicTask ''FundingBook_fUSD'' (60000 * millisecond)
                     (\<lambda>c. None) 3 1000,
                   Call_ScheduleRecurring (Ctx 0) (PeriodicT (fundingBook_fUSD 1000))
                     (60000 * millisecond),
                   Go 1 0] s0 of
           Returns s \<Rightarrow>
             periodicTask s ''FundingBook_fUSD'' = Some (fundingBook_fUSD 1000)
           \<and> Cancel s ''FundingBook_fUSD'' = (s, None)
           \<and> (case run [Call_Cancel ''FundingBook_fUSD'', Ticker_ticks 1, Go 1 0, Go 1 0,
                         Go 0 0, Execute_done 0 None] s of
                 Returns s' \<Rightarrow>
                   periodicTask s' ''FundingBook_fUSD'' = Some (fundingBook_fUSD 1000)
                 \<and> executed s' = [(PeriodicT (fundingBook_fUSD 1000), None)]
                 \<and> executions s' ''FundingBook_fUSD'' = 1
               | Blocks \<Rightarrow> False
               | Panics m \<Rightarrow> False)
         | Blocks \<Rightarrow> False
         | Panics m \<Rightarrow> False)
    | Blocks \<Rightarrow> False
    | Panics m \<Rightarrow> False)"
  by (simp add: eval_defs go_select3_none go_select3_tick fundingBook_fUSD_def millisecond_def
        executions_def)

section \<open>Failed tasks\<close>

text \<open>
  Claim C1, on the code: a task with \<open>MaxRetries = 3\<close> whose \<open>Execute\<close> fails is executed
  once. The worker goes back to its \<open>select\<close> and parks, the queue being empty. The retry
  executor of the specification makes four attempts on the same task, with sleeps of 500,
  1000 and 2000 ms.
\<close>

theorem worker_runs_failed_task_once:
  "(case NewScheduler 1 1 of
      Returns s0 \<Rightarrow>
        (case run [Call_Start, Call_SubmitTask fundingTicker_fUSD, Go 0 0,
                   Execute_done 0 (Some ''request failed''), Go 0 0] s0 of
           Returns s \<Rightarrow>
             executed s = [(fundingTicker_fUSD, Some ''request failed'')]
           \<and> executions s ''GetFundingTicker_fUSD'' = 1
           \<and> taskQueue s = [] \<and> goroutines s = [W_parked]
         | Blocks \<Rightarrow> False
         | Panics m \<Rightarrow> False)
    | Blocks \<Rightarrow> False
    | Panics m \<Rightarrow> False)
 \<and> GetRetryPolicy fundingTicker_fUSD = \<lparr>MaxRetries = 3, BackoffBase = 500 * millisecond\<rparr>
 \<and> spec_executeWithRetry (\<lambda>n. Some ''request failed'')
       (GetRetryPolicy fundingTicker_fUSD) 0 []
     = (4, [500 * millisecond, 1000 * millisecond, 2000 * millisecond],
        Some ''request failed'')"
  by (simp add: eval_defs executions_def fundingTicker_fUSD_def millisecond_def)

section \<open>Delayed tasks\<close>

text \<open>
  Claim C6, as the code has it, for the goroutine of \<open>ScheduleWithDelay\<close> at its \<open>select\<close>.
  With the context done and the timer not fired, or with the context cancelled while the
  goroutine is parked in the \<open>select\<close>, the goroutine stops the timer and returns, and the
  scheduler is otherwise as before: the task is not submitted. With the timer fired and
  the context not done, or with the timer firing while the goroutine is parked, the task
  is submitted once by \<open>SubmitTask\<close> and the goroutine returns. With both the timer fired
  and the context done when the \<open>select\<close> is evaluated, the runtime's choice decides
  between the two. A goroutine that has returned stays so in every run and has no step
  left: it submits nothing later. \<open>ScheduleWithDelay\<close>
  itself spawns the goroutine and returns \<open>nil\<close>.
\<close>

theorem delay_goroutine:
  assumes "i < length (goroutines s)" and "goroutines s ! i = D_select task c fired"
  shows "(ctx_Done s c \<and> \<not> fired \<longrightarrow>
            run [Go i ch, Go i ch'] s =
              Returns (s\<lparr>goroutines := (goroutines s)[i := D_exited True]\<rparr>))
       \<and> (fired \<and> \<not> ctx_Done s c \<longrightarrow>
            run [Go i ch, Go i ch'] s =
              Returns ((SubmitTask s task)
                \<lparr>goroutines := (goroutines (SubmitTask s task))[i := D_exited False]\<rparr>))
       \<and> (\<not> fired \<and> \<not> ctx_Done s c \<and> c = Ctx n \<longrightarrow>
            run [Go i ch, Cancel_ctx n, Go i ch'] s =
              Returns ((cancel_ctx s n)
                \<lparr>goroutines := (goroutines (cancel_ctx s n))[i := D_exited True]\<rparr>))
       \<and> (\<not> fired \<and> \<not> ctx_Done s c \<longrightarrow>
            run [Go i ch, Timer_fires i, Go i ch'] s =
              Returns ((SubmitTask s task)
                \<lparr>goroutines := (goroutines (SubmitTask s task))[i := D_exited False]\<rparr>))
       \<and> (fired \<and> ctx_Done s c \<longrightarrow>
            run [Go i ch, Go i ch'] s =
              Returns (if even ch
                       then (SubmitTask s task)
                         \<lparr>goroutines := (goroutines (SubmitTask s task))[i := D_exited False]\<rparr>
                       else s\<lparr>goroutines := (goroutines s)[i := D_exited True]\<rparr>))
       \<and> (i < length (goroutines s') \<and> goroutines s' ! i = D_exited b
            \<and> run as s' = Returns s'' \<longrightarrow>
            goroutines s'' ! i = D_exited b
            \<and> step (Go i ch) s'' = Blocks \<and> step (Timer_fires i) s'' = Blocks)
       \<and> ScheduleWithDelay s' c task d =
            (s'\<lparr>goroutines := goroutines s' @ [D_select task c False]\<rparr>, None)"
proof -
  note [simp del] = run.simps step.simps
  have 1: "ctx_Done s c \<and> \<not> fired \<longrightarrow>
            run [Go i ch, Go i ch'] s =
              Returns (s\<lparr>goroutines := (goroutines s)[i := D_exited True]\<rparr>)"
    using assms by (auto intro: delay_cancelled)
  have 2: "fired \<and> \<not> ctx_Done s c \<longrightarrow>
            run [Go i ch, Go i ch'] s =
              Returns ((SubmitTask s task)
                \<lparr>goroutines := (goroutines (SubmitTask s task))[i := D_exited False]\<rparr>)"
    using assms by (auto intro: delay_fired)
  have 3: "\<not> fired \<and> \<not> ctx_Done s c \<and> c = Ctx n \<longrightarrow>
            run [Go i ch, Cancel_ctx n, Go i ch'] s =
              Returns ((cancel_ctx s n)
                \<lparr>goroutines := (goroutines (cancel_ctx s n))[i := D_exited True]\<rparr>)"
    using assms by (auto intro: delay_parked_cancel)
  have 4: "\<not> fired \<and> \<not> ctx_Done s c \<longrightarrow>
            run [Go i ch, Timer_fires i, Go i ch'] s =
              Returns ((SubmitTask s task)
                \<lparr>goroutines := (goroutines (SubmitTask s task))[i := D_exited False]\<rparr>)"
    using assms by (auto intro: delay_parked_fire)
  have 5: "fired \<and> ctx_Done s c \<longrightarrow>
            run [Go i ch, Go i ch'] s =
              Returns (if even ch
                       then (SubmitTask s task)
                         \<lparr>goroutines := (goroutines (SubmitTask s task))[i := D_exited False]\<rparr>
                       else s\<lparr>goroutines := (goroutines s)[i := D_exited True]\<rparr>)"
    using assms delay_both [of i s task c ch ch'] by simp
  have 6: "i < length (goroutines s') \<and> goroutines s' ! i = D_exited b
            \<and> run as s' = Returns s'' \<longrightarrow>
            goroutines s'' ! i = D_exited b
            \<and> step (Go i ch) s'' = Blocks \<and> step (Timer_fires i) s'' = Blocks"
  proof (intro impI)
    assume h: "i < length (goroutines s') \<and> goroutines s' ! i = D_exited b
            \<and> run as s' = Returns s''"
    with run_gone [of as s' s'' i] have "goroutines s'' ! i = D_exited b"
      by simp
    with delay_exited [of s'' i b ch] show "goroutines s'' ! i = D_exited b
            \<and> step (Go i ch) s'' = Blocks \<and> step (Timer_fires i) s'' = Blocks"
      by simp
  qed
  have 7: "ScheduleWithDelay s' c task d =
            (s'\<lparr>goroutines := goroutines s' @ [D_select task c False]\<rparr>, None)"
    by (simp add: ScheduleWithDelay_def)
  from 1 2 3 4 5 6 7 show ?thesis by blast
qed

theorem delay_goroutine_witness:
  "\<exists>s0 s. NewScheduler 1 1 = Returns s0
     \<and> ScheduleWithDelay s0 (Ctx 0) fundingTicker_fUSD (100 * millisecond) = (s, None)
     \<and> 0 < length (goroutines s)
     \<and> goroutines s ! 0 = D_select fundingTicker_fUSD (Ctx 0) False
     \<and> \<not> ctx_Done s (Ctx 0)
     \<and> run [Go 0 0, Cancel_ctx 0, Go 0 0] s =
         Returns (s\<lparr>goroutines := [D_exited True], cancelled := {0}\<rparr>)
     \<and> run [Go 0 0, Timer_fires 0, Go 0 0] s =
         Returns (s\<lparr>taskQueue := [fundingTicker_fUSD], goroutines := [D_exited False]\<rparr>)
     \<and> ctx_Done (s\<lparr>cancelled := {0}\<rparr>) (Ctx 0)
     \<and> run [Go 0 0, Go 0 0] (s\<lparr>cancelled := {0}\<rparr>) =
         Returns (s\<lparr>goroutines := [D_exited True], cancelled := {0}\<rparr>)
     \<and> run [Go 0 0, Go 0 0]
           (s\<lparr>goroutines := [D_select fundingTicker_fUSD (Ctx 0) True]\<rparr>) =
         Returns (s\<lparr>taskQueue := [fundingTicker_fUSD], goroutines := [D_exited False]\<rparr>)
     \<and> run [Go 0 1, Go 0 0]
           (s\<lparr>goroutines := [D_select fundingTicker_fUSD (Ctx 0) True],
              cancelled := {0}\<rparr>) =
         Returns (s\<lparr>goroutines := [D_exited True], cancelled := {0}\<rparr>)
     \<and> run [Call_SubmitTask fundingTicker_fUST]
           (s\<lparr>goroutines := [D_exited True], cancelled := {0}\<rparr>) =
         Returns (s\<lparr>taskQueue := [fundingTicker_fUST], goroutines := [D_exited True],
                    cancelled := {0}\<rparr>)
     \<and> step (Go 0 0)
           (s\<lparr>taskQueue := [fundingTicker_fUST], goroutines := [D_exited True],
              cancelled := {0}\<rparr>) = Blocks"
proof -
  let ?init = "\<lparr>workers = 1, queueSize = 1, taskQueue = [], periodicTask = (\<lambda>n. None),
      s_mu = False, wg = 0, quit = False, goroutines = [], cancelled = {}, executed = []\<rparr>"
  let ?at = "?init\<lparr>goroutines := [D_select fundingTicker_fUSD (Ctx 0) False]\<rparr>"
  have n: "NewScheduler 1 1 = Returns ?init"
    by (simp add: NewScheduler_defs)
  have d: "ScheduleWithDelay ?init (Ctx 0) fundingTicker_fUSD (100 * millisecond) = (?at, None)"
    by (simp add: ScheduleWithDelay_def)
  have h: "0 < length (goroutines ?at)"
    "goroutines ?at ! 0 = D_select fundingTicker_fUSD (Ctx 0) False"
    "\<not> ctx_Done ?at (Ctx 0)"
    by simp_all
  note t = delay_goroutine [OF h(1) h(2), where n = 0 and ch = 0 and ch' = 0]
  from t h(3) have 1: "run [Go 0 0, Cancel_ctx 0, Go 0 0] ?at =
      Returns ((cancel_ctx ?at 0)
                \<lparr>goroutines := (goroutines (cancel_ctx ?at 0))[0 := D_exited True]\<rparr>)"
    by blast
  from t h(3) have 2: "run [Go 0 0, Timer_fires 0, Go 0 0] ?at =
      Returns ((SubmitTask ?at fundingTicker_fUSD)
        \<lparr>goroutines := (goroutines (SubmitTask ?at fundingTicker_fUSD))[0 := D_exited False]\<rparr>)"
    by blast
  have h': "0 < length (goroutines (?at\<lparr>cancelled := {0}\<rparr>))"
    "goroutines (?at\<lparr>cancelled := {0}\<rparr>) ! 0 = D_select fundingTicker_fUSD (Ctx 0) False"
    "ctx_Done (?at\<lparr>cancelled := {0}\<rparr>) (Ctx 0)"
    by simp_all
  from delay_goroutine [OF h'(1) h'(2), where ch = 0 and ch' = 0] h'(3)
  have 3: "run [Go 0 0, Go 0 0] (?at\<lparr>cancelled := {0}\<rparr>) =
      Returns (?at\<lparr>cancelled := {0}\<rparr>
        \<lparr>goroutines := (goroutines (?at\<lparr>cancelled := {0}\<rparr>))[0 := D_exited True]\<rparr>)"
    by blast
  have e1: "(cancel_ctx ?at 0)
                \<lparr>goroutines := (goroutines (cancel_ctx ?at 0))[0 := D_exited True]\<rparr>
          = ?at\<lparr>goroutines := [D_exited True], cancelled := {0}\<rparr>"
    by (simp add: cancel_ctx_def)
  have e2: "(SubmitTask ?at fundingTicker_fUSD)
        \<lparr>goroutines := (goroutines (SubmitTask ?at fundingTicker_fUSD))[0 := D_exited False]\<rparr>
          = ?at\<lparr>taskQueue := [fundingTicker_fUSD], goroutines := [D_exited False]\<rparr>"
    by (simp add: SubmitTask_cases)
  let ?gone = "?at\<lparr>goroutines := [D_exited True], cancelled := {0}\<rparr>"
  let ?later = "?at\<lparr>taskQueue := [fundingTicker_fUST], goroutines := [D_exited True],
                    cancelled := {0}\<rparr>"
  have k: "0 < length (goroutines ?gone)" "goroutines ?gone ! 0 = D_exited True"
    by simp_all
  have l: "run [Call_SubmitTask fundingTicker_fUST] ?gone = Returns ?later"
    by (simp add: and_then_def SubmitTask_cases)
  from delay_goroutine [OF h(1) h(2), where s' = ?gone and b = True
      and as = "[Call_SubmitTask fundingTicker_fUST]" and s'' = ?later and ch = 0] k l
  have 4: "step (Go 0 0) ?later = Blocks"
    by blast
  let ?fired = "?init\<lparr>goroutines := [D_select fundingTicker_fUSD (Ctx 0) True]\<rparr>"
  have f: "0 < length (goroutines ?fired)"
    "goroutines ?fired ! 0 = D_select fundingTicker_fUSD (Ctx 0) True"
    "\<not> ctx_Done ?fired (Ctx 0)"
    by simp_all
  from delay_goroutine [OF f(1) f(2), where ch = 0 and ch' = 0] f(3)
  have 5: "run [Go 0 0, Go 0 0] ?fired =
      Returns ((SubmitTask ?fired fundingTicker_fUSD)
        \<lparr>goroutines := (goroutines (SubmitTask ?fired fundingTicker_fUSD))[0 := D_exited False]\<rparr>)"
    by blast
  have e5: "(SubmitTask ?fired fundingTicker_fUSD)
        \<lparr>goroutines := (goroutines (SubmitTask ?fired fundingTicker_fUSD))[0 := D_exited False]\<rparr>
      = ?at\<lparr>taskQueue := [fundingTicker_fUSD], goroutines := [D_exited False]\<rparr>"
    by (simp add: SubmitTask_cases)
  have f': "0 < length (goroutines (?fired\<lparr>cancelled := {0}\<rparr>))"
    "goroutines (?fired\<lparr>cancelled := {0}\<rparr>) ! 0 = D_select fundingTicker_fUSD (Ctx 0) True"
    "ctx_Done (?fired\<lparr>cancelled := {0}\<rparr>) (Ctx 0)"
    by simp_all
  from delay_goroutine [OF f'(1) f'(2), where ch = 1 and ch' = 0] f'(3)
  have "run [Go 0 1, Go 0 0] (?fired\<lparr>cancelled := {0}\<rparr>) =
      Returns (if even (1::nat)
         then (SubmitTask (?fired\<lparr>cancelled := {0}\<rparr>) fundingTicker_fUSD)
           \<lparr>goroutines :=
              (goroutines (SubmitTask (?fired\<lparr>cancelled := {0}\<rparr>) fundingTicker_fUSD))
              [0 := D_exited False]\<rparr>
         else ?fired\<lparr>cancelled := {0}\<rparr>
           \<lparr>goroutines := (goroutines (?fired\<lparr>cancelled := {0}\<rparr>))[0 := D_exited True]\<rparr>)"
    by blast
  then have 6: "run [Go 0 1, Go 0 0] (?fired\<lparr>cancelled := {0}\<rparr>) =
      Returns (?fired\<lparr>cancelled := {0}\<rparr>
        \<lparr>goroutines := (goroutines (?fired\<lparr>cancelled := {0}\<rparr>))[0 := D_exited True]\<rparr>)"
    by (simp only: odd_one if_False)
  from n d h 1 2 3 h'(3) l 4 5 6 show ?thesis
    unfolding e1 e2 e5
    by (intro exI [of _ ?init] exI [of _ ?at]) (simp del: run.simps step.simps)
qed

text \<open>
  Claim C6 as stated fails: the context is cancelled, then \<open>ScheduleWithDelay\<close> is called
  with it and a delay of zero, and the timer fires before the goroutine reaches its
  \<open>select\<close>; the runtime picks the timer case, the task is submitted, and a worker
  executes it.
\<close>

theorem delay_cancelled_then_submitted:
  "(case NewScheduler 1 1 of
      Returns s0 \<Rightarrow>
        (case run [Call_Start, Cancel_ctx 0,
                   Call_ScheduleWithDelay (Ctx 0) fundingTicker_fUSD 0,
                   Timer_fires 1, Go 1 0, Go 1 0, Go 0 0, Execute_done 0 None] s0 of
           Returns s \<Rightarrow> executed s = [(fundingTicker_fUSD, None)]
                        \<and> goroutines s = [W_select, D_exited False]
                        \<and> cancelled s = {0}
         | Blocks \<Rightarrow> False
         | Panics m \<Rightarrow> False)
    | Blocks \<Rightarrow> False
    | Panics m \<Rightarrow> False)"
  by (simp add: eval_defs)

section \<open>Recurring tasks\<close>




end
